theory Spec2Isabelle
  imports Main
begin

section \<open>Strings\<close>

text \<open>
  The generator of \<^verbatim>\<open>kedro_azureml/generator.py\<close> works on Python \<^verbatim>\<open>str\<close> values.
  A \<^typ>\<open>char\<close> stands for one code point in the range 0..255 (ASCII and Latin-1); on
  these code points \<^verbatim>\<open>str.lower\<close> maps one code point to one code point and does not
  look at the neighbours. Names with code points beyond 255 are outside the model.
\<close>

definition code :: "char \<Rightarrow> nat" where
  "code c = of_char c"

definition lower_char :: "char \<Rightarrow> char" where
  "lower_char c =
     (if (65 \<le> code c \<and> code c \<le> 90) \<or> (192 \<le> code c \<and> code c \<le> 222 \<and> code c \<noteq> 215)
      then char_of (code c + 32) else c)"

definition lower :: "string \<Rightarrow> string" where
  "lower s = map lower_char s"

text \<open>
  \<^verbatim>\<open>str.replace(old, new)\<close>: the non-overlapping occurrences of \<open>old\<close>, found from left to
  right, are replaced. With an empty \<open>old\<close> Python puts \<open>new\<close> before every character and at
  the end.
\<close>

function replace :: "string \<Rightarrow> string \<Rightarrow> string \<Rightarrow> string" where
  "replace old new [] = (if old = [] then new else [])"
| "replace old new (c # cs) =
     (if old = [] then new @ c # replace old new cs
      else if take (length old) (c # cs) = old
      then new @ replace old new (drop (length old) (c # cs))
      else c # replace old new cs)"
  by pat_completeness auto
termination
  by (relation "measure (\<lambda>(old, new, s). length s)") auto

text \<open>
  \<^verbatim>\<open>re.sub(pattern, repl, s)\<close> for a pattern that is one negated character class
  \<^verbatim>\<open>[^...]\<close> made of ranges: the scan goes from left to right; a character outside every
  range is a match of length one and is replaced by \<open>repl\<close>, a character inside a range is
  copied. A negated class also matches a newline.
\<close>

definition in_ranges :: "(char \<times> char) list \<Rightarrow> char \<Rightarrow> bool" where
  "in_ranges rs c = list_ex (\<lambda>(lo, hi). code lo \<le> code c \<and> code c \<le> code hi) rs"

fun re_sub_negated_class :: "(char \<times> char) list \<Rightarrow> string \<Rightarrow> string \<Rightarrow> string" where
  "re_sub_negated_class rs repl [] = []"
| "re_sub_negated_class rs repl (c # cs) =
     (if in_ranges rs c then c # re_sub_negated_class rs repl cs
      else repl @ re_sub_negated_class rs repl cs)"

text \<open>\<^verbatim>\<open>sep.join(xs)\<close>.\<close>

fun join :: "string \<Rightarrow> string list \<Rightarrow> string" where
  "join sep [] = []"
| "join sep [x] = x"
| "join sep (x # y # ys) = x @ sep @ join sep (y # ys)"

section \<open>Name sanitizers\<close>

text \<open>\<^verbatim>\<open>_sanitize_param_name\<close>: \<^verbatim>\<open>re.sub(r"[^a-z0-9_]", "_", param_name.lower())\<close>.\<close>

definition param_class :: "(char \<times> char) list" where
  "param_class = [(CHR ''a'', CHR ''z''), (CHR ''0'', CHR ''9''), (CHR ''_'', CHR ''_'')]"

definition sanitize_param_name :: "string \<Rightarrow> string" where
  "sanitize_param_name param_name = re_sub_negated_class param_class ''_'' (lower param_name)"

text \<open>\<^verbatim>\<open>_sanitize_azure_name\<close>: \<^verbatim>\<open>name.lower().replace(".", "__")\<close>.\<close>

definition sanitize_azure_name :: "string \<Rightarrow> string" where
  "sanitize_azure_name nm = replace ''.'' ''__'' (lower nm)"

text \<open>
  The sanitizers as the specification words them: the parameter sanitizer lower-cases and
  then replaces every character outside \<^verbatim>\<open>[a-z0-9_]\<close> with an underscore; the identifier
  sanitizer lower-cases and replaces every full stop with two underscores.
\<close>

definition param_char :: "char \<Rightarrow> bool" where
  "param_char c \<longleftrightarrow>
     (97 \<le> code c \<and> code c \<le> 122) \<or> (48 \<le> code c \<and> code c \<le> 57) \<or> c = CHR ''_''"

definition spec_sanitize_parameter :: "string \<Rightarrow> string" where
  "spec_sanitize_parameter s = map (\<lambda>c. if param_char c then c else CHR ''_'') (lower s)"

definition spec_sanitize_identifier :: "string \<Rightarrow> string" where
  "spec_sanitize_identifier s = concat (map (\<lambda>c. if c = CHR ''.'' then ''__'' else [c]) (lower s))"

section \<open>Data model\<close>

text \<open>
  Kedro's \<^verbatim>\<open>Node\<close> as the generator reads it: \<^verbatim>\<open>node.name\<close>, \<^verbatim>\<open>node.inputs\<close> and
  \<^verbatim>\<open>node.outputs\<close> (lists of dataset names). Kedro's \<^verbatim>\<open>Pipeline\<close>: \<^verbatim>\<open>pipeline.nodes\<close> (a
  list), \<^verbatim>\<open>pipeline.node_dependencies\<close> (a dict from a node to the set of its parents; the
  list is that set in iteration order), \<^verbatim>\<open>pipeline.inputs()\<close> and \<^verbatim>\<open>pipeline.outputs()\<close> (sets
  of dataset names; the lists are the sets in iteration order).
\<close>

record node =
  name :: string
  inputs :: "string list"
  outputs :: "string list"

record pipeline =
  nodes :: "node list"
  node_dependencies :: "node \<rightharpoonup> node list"
  pipeline_inputs :: "string list"
  pipeline_outputs :: "string list"

text \<open>
  The configuration objects. The type of \<^verbatim>\<open>config.azure.temporary_storage\<close> is declared
  outside the generator and stays a type parameter; \<^verbatim>\<open>KedroAzureRunnerConfig\<close> is the record
  the generator fills in, and its \<^verbatim>\<open>json()\<close> method is a parameter \<open>json\<close> of the builder.
\<close>

record 'ts kedro_azureml_config =
  azure_temporary_storage :: 'ts
  docker_image_default :: string

record 'ts kedro_azure_runner_config =
  temporary_storage :: 'ts
  run_id :: string
  runner_storage_account_key :: "string option"

text \<open>The fields of \<^verbatim>\<open>AzureMLPipelineGenerator\<close> set by \<^verbatim>\<open>__init__\<close>.\<close>

record 'ts generator =
  storage_account_key :: "string option"
  kedro_environment :: string
  params :: "string list option"
  docker_image :: "string option"
  config :: "'ts kedro_azureml_config"
  pipeline_name :: string

text \<open>
  What the Azure ML SDK builds. \<^verbatim>\<open>Input(type="string")\<close> and \<^verbatim>\<open>Input()\<close> are the two input
  declarations, \<^verbatim>\<open>Output()\<close> the only output declaration, \<^verbatim>\<open>Environment(image=...)\<close> carries
  the image, and \<^verbatim>\<open>command(...)\<close> keeps its keyword arguments. Dicts are maps.
\<close>

datatype input_decl = Input_string | Input_default

datatype output_decl = Output_default

record environment =
  image :: string

record command_step =
  step_name :: string
  display_name :: string
  command :: string
  environment_variables :: "(string \<times> string) list"
  step_environment :: environment
  step_inputs :: "string \<rightharpoonup> input_decl"
  step_outputs :: "string \<rightharpoonup> output_decl"

text \<open>
  Calling a command with keyword arguments gives a component: a new object, whose identity
  \<open>comp_id\<close> is the number of components built before it. \<^verbatim>\<open>component.outputs[k]\<close> is a
  handle that refers to its owner and to the output \<open>k\<close>; a key that is not a declared
  output raises \<^verbatim>\<open>KeyError\<close>. A keyword argument is either such a handle or a plain string.
\<close>

record handle =
  owner :: nat
  port :: string

datatype binding = Upstream handle | Literal string

record component =
  comp_id :: nat
  comp_command :: command_step
  comp_inputs :: "string \<rightharpoonup> binding"

datatype error = KeyError string | KeyError_node node | ValueError string

definition invoke :: "command_step \<Rightarrow> nat \<Rightarrow> (string \<rightharpoonup> binding) \<Rightarrow> component" where
  "invoke c k kwargs = \<lparr>comp_id = k, comp_command = c, comp_inputs = kwargs\<rparr>"

definition comp_outputs :: "component \<Rightarrow> string \<Rightarrow> error + handle" where
  "comp_outputs c k =
     (case step_outputs (comp_command c) k of
        None \<Rightarrow> Inl (KeyError k)
      | Some _ \<Rightarrow> Inr \<lparr>owner = comp_id c, port = k\<rparr>)"

text \<open>
  A dict comprehension \<^verbatim>\<open>{key(x): val(x) for x in xs}\<close>: a later entry with the same key
  replaces the earlier one.
\<close>

definition dict_comp :: "('a \<Rightarrow> 'k) \<Rightarrow> ('a \<Rightarrow> 'v) \<Rightarrow> 'a list \<Rightarrow> ('k \<rightharpoonup> 'v)" where
  "dict_comp key val xs = fold (\<lambda>x m. m(key x \<mapsto> val x)) xs Map.empty"

text \<open>\<^verbatim>\<open>a or b\<close> for an optional string \<open>a\<close>: \<open>None\<close> and the empty string are falsy.\<close>

definition or_else :: "string option \<Rightarrow> string \<Rightarrow> string" where
  "or_else a b = (case a of None \<Rightarrow> b | Some s \<Rightarrow> if s = [] then b else s)"

section \<open>Command step builder\<close>

text \<open>
  \<^verbatim>\<open>_prepare_command\<close>: the f-string of the \<^verbatim>\<open>kedro run\<close> call, then, when \<^verbatim>\<open>node.outputs\<close>
  is not empty, \<^verbatim>\<open>" && "\<close> and the \<^verbatim>\<open>echo\<close> commands of the outputs joined by \<^verbatim>\<open>" && "\<close>.
\<close>

definition kedro_run :: "'ts generator \<Rightarrow> node \<Rightarrow> string" where
  "kedro_run g n =
     ''cd /home/kedro && kedro run -e '' @ kedro_environment g
     @ '' --pipeline='' @ pipeline_name g
     @ '' --node='' @ name n
     @ '' --runner=kedroazureml.azurerunner.AzurePipelinesRunner''"

definition echo_output :: "string \<Rightarrow> string" where
  "echo_output nm =
     ''echo 'Show must go on!' > ${{outputs.'' @ sanitize_param_name nm @ ''}}/output.txt''"

definition prepare_command :: "'ts generator \<Rightarrow> node \<Rightarrow> string" where
  "prepare_command g n =
     kedro_run g n
     @ (if outputs n \<noteq> [] then '' && '' @ join '' && '' (map echo_output (outputs n)) else [])"

text \<open>\<^verbatim>\<open>_construct_azure_command\<close>.\<close>

definition construct_azure_command ::
  "('ts kedro_azure_runner_config \<Rightarrow> string) \<Rightarrow> 'ts generator \<Rightarrow> pipeline \<Rightarrow> node \<Rightarrow> string
     \<Rightarrow> command_step" where
  "construct_azure_command json g p n kedro_azure_run_id =
     \<lparr>step_name = sanitize_azure_name (name n),
      display_name = name n,
      command = prepare_command g n,
      environment_variables =
        [(''KEDRO_AZURE_RUNNER_CONFIG'',
          json \<lparr>temporary_storage = azure_temporary_storage (config g),
                run_id = kedro_azure_run_id,
                runner_storage_account_key = storage_account_key g\<rparr>)],
      step_environment = \<lparr>image = or_else (docker_image g) (docker_image_default (config g))\<rparr>,
      step_inputs =
        dict_comp sanitize_param_name
          (\<lambda>nm. if nm \<in> set (pipeline_inputs p) then Input_string else Input_default)
          (inputs n),
      step_outputs = dict_comp sanitize_param_name (\<lambda>nm. Output_default) (outputs n)\<rparr>"

section \<open>Graph wiring\<close>

text \<open>
  \<^verbatim>\<open>_connect_commands\<close>. The inner loop fills \<^verbatim>\<open>azure_inputs\<close> for one node; \<^verbatim>\<open>next(...)\<close> over
  the dependencies is \<^const>\<open>find\<close>. The outer loop goes through \<^verbatim>\<open>pipeline.nodes\<close> and
  stores each component under the node's name. Every dict access that can raise is a branch.
\<close>

fun bind_inputs ::
  "(string \<rightharpoonup> component) \<Rightarrow> node list \<Rightarrow> string list \<Rightarrow> (string \<rightharpoonup> binding)
     \<Rightarrow> error + (string \<rightharpoonup> binding)" where
  "bind_inputs invoked deps [] azure_inputs = Inr azure_inputs"
| "bind_inputs invoked deps (node_input # rest) azure_inputs =
     (case find (\<lambda>d. node_input \<in> set (outputs d)) deps of
        Some d \<Rightarrow>
          (case invoked (name d) of
             None \<Rightarrow> Inl (KeyError (name d))
           | Some parent \<Rightarrow>
               (case comp_outputs parent (sanitize_param_name node_input) of
                  Inl e \<Rightarrow> Inl e
                | Inr azure_output \<Rightarrow>
                    bind_inputs invoked deps rest
                      (azure_inputs(sanitize_param_name node_input \<mapsto> Upstream azure_output))))
      | None \<Rightarrow>
          bind_inputs invoked deps rest
            (azure_inputs(sanitize_param_name node_input \<mapsto> Literal node_input)))"

fun connect_loop ::
  "pipeline \<Rightarrow> (string \<rightharpoonup> command_step) \<Rightarrow> node list \<Rightarrow> (string \<rightharpoonup> component) \<Rightarrow> nat
     \<Rightarrow> error + (string \<rightharpoonup> component)" where
  "connect_loop p commands [] invoked k = Inr invoked"
| "connect_loop p commands (n # ns) invoked k =
     (case node_dependencies p n of
        None \<Rightarrow> Inl (KeyError_node n)
      | Some dependencies \<Rightarrow>
          (case bind_inputs invoked dependencies (inputs n) Map.empty of
             Inl e \<Rightarrow> Inl e
           | Inr azure_inputs \<Rightarrow>
               (case commands (name n) of
                  None \<Rightarrow> Inl (KeyError (name n))
                | Some c \<Rightarrow>
                    connect_loop p commands ns
                      (invoked(name n \<mapsto> invoke c k azure_inputs)) (Suc k))))"

definition connect_commands ::
  "pipeline \<Rightarrow> (string \<rightharpoonup> command_step) \<Rightarrow> error + (string \<rightharpoonup> component)" where
  "connect_commands p commands = connect_loop p commands (nodes p) Map.empty 0"

section \<open>Output resolver\<close>

text \<open>
  \<^verbatim>\<open>_gather_pipeline_outputs\<close>: for each pipeline output the first node of \<^verbatim>\<open>pipeline.nodes\<close>
  that lists it, \<^verbatim>\<open>ValueError\<close> when there is none.
\<close>

definition no_producer_message :: "string \<Rightarrow> string" where
  "no_producer_message pipeline_output =
     ''There is no node which outputs '' @ [char_of (96 :: nat)] @ pipeline_output
     @ [char_of (96 :: nat)] @ '' dataset''"

fun gather_loop ::
  "pipeline \<Rightarrow> (string \<rightharpoonup> component) \<Rightarrow> string list \<Rightarrow> (string \<rightharpoonup> handle)
     \<Rightarrow> error + (string \<rightharpoonup> handle)" where
  "gather_loop p invoked [] azure_pipeline_outputs = Inr azure_pipeline_outputs"
| "gather_loop p invoked (pipeline_output # rest) azure_pipeline_outputs =
     (case find (\<lambda>n. pipeline_output \<in> set (outputs n)) (nodes p) of
        None \<Rightarrow> Inl (ValueError (no_producer_message pipeline_output))
      | Some source_node \<Rightarrow>
          (case invoked (name source_node) of
             None \<Rightarrow> Inl (KeyError (name source_node))
           | Some c \<Rightarrow>
               (case comp_outputs c (sanitize_param_name pipeline_output) of
                  Inl e \<Rightarrow> Inl e
                | Inr h \<Rightarrow>
                    gather_loop p invoked rest
                      (azure_pipeline_outputs(sanitize_param_name pipeline_output \<mapsto> h)))))"

definition gather_pipeline_outputs ::
  "pipeline \<Rightarrow> (string \<rightharpoonup> component) \<Rightarrow> error + (string \<rightharpoonup> handle)" where
  "gather_pipeline_outputs p invoked = gather_loop p invoked (pipeline_outputs p) Map.empty"

section \<open>The lowering\<close>

text \<open>
  The body of \<^verbatim>\<open>kedro_azure_pipeline_fn\<close> in \<^verbatim>\<open>generate\<close>: one command per node, stored under
  the node's name, then the wiring, then the pipeline outputs. The run identifier, which
  \<^verbatim>\<open>generate\<close> draws with \<^verbatim>\<open>uuid4().hex\<close>, is an argument.
\<close>

definition build_commands ::
  "('ts kedro_azure_runner_config \<Rightarrow> string) \<Rightarrow> 'ts generator \<Rightarrow> pipeline \<Rightarrow> string
     \<Rightarrow> (string \<rightharpoonup> command_step)" where
  "build_commands json g p kedro_azure_run_id =
     fold (\<lambda>n commands. commands(name n \<mapsto> construct_azure_command json g p n kedro_azure_run_id))
       (nodes p) Map.empty"

definition kedro_azure_pipeline_fn ::
  "('ts kedro_azure_runner_config \<Rightarrow> string) \<Rightarrow> 'ts generator \<Rightarrow> pipeline \<Rightarrow> string
     \<Rightarrow> error + (string \<rightharpoonup> handle)" where
  "kedro_azure_pipeline_fn json g p kedro_azure_run_id =
     (case connect_commands p (build_commands json g p kedro_azure_run_id) of
        Inl e \<Rightarrow> Inl e
      | Inr invoked_components \<Rightarrow> gather_pipeline_outputs p invoked_components)"

section \<open>The properties, as the specification words them\<close>

text \<open>
  The data model of the specification: node names are unique within a pipeline, and the
  dependency map gives every node a set of nodes of the pipeline.
\<close>

definition well_formed :: "pipeline \<Rightarrow> bool" where
  "well_formed p \<longleftrightarrow>
     distinct (map name (nodes p))
     \<and> (\<forall>n \<in> set (nodes p).
          case node_dependencies p n of None \<Rightarrow> False | Some deps \<Rightarrow> set deps \<subseteq> set (nodes p))"

text \<open>
  The pipeline invariant: every dataset a node consumes is either externally supplied, and
  then no node produces it, or produced by exactly one node.
\<close>

definition pipeline_invariant :: "pipeline \<Rightarrow> bool" where
  "pipeline_invariant p \<longleftrightarrow>
     (\<forall>n \<in> set (nodes p). \<forall>i \<in> set (inputs n).
        if i \<in> set (pipeline_inputs p)
        then \<forall>m \<in> set (nodes p). i \<notin> set (outputs m)
        else length (filter (\<lambda>m. i \<in> set (outputs m)) (nodes p)) = 1)"

text \<open>
  Topological order: the dependencies of a node are among the nodes that stand before it in
  \<^verbatim>\<open>pipeline.nodes\<close>.
\<close>

fun deps_before :: "pipeline \<Rightarrow> node list \<Rightarrow> node list \<Rightarrow> bool" where
  "deps_before p earlier [] = True"
| "deps_before p earlier (n # ns) =
     ((case node_dependencies p n of None \<Rightarrow> False | Some deps \<Rightarrow> set deps \<subseteq> set earlier)
      \<and> deps_before p (earlier @ [n]) ns)"

definition topologically_sorted :: "pipeline \<Rightarrow> bool" where
  "topologically_sorted p = deps_before p [] (nodes p)"

text \<open>
  Input and output declarations of a command step: every input of the node is declared under
  its sanitized name, as a string input if and only if it is a pipeline input; every output
  is declared under its sanitized name.
\<close>

definition declarations_as_specified :: "pipeline \<Rightarrow> node \<Rightarrow> command_step \<Rightarrow> bool" where
  "declarations_as_specified p n c \<longleftrightarrow>
     (\<forall>nm \<in> set (inputs n).
        step_inputs c (sanitize_param_name nm)
          = Some (if nm \<in> set (pipeline_inputs p) then Input_string else Input_default))
     \<and> (\<forall>nm \<in> set (outputs n). step_outputs c (sanitize_param_name nm) = Some Output_default)"

text \<open>
  The wiring rule for one input of a node: when a dependency lists the input among its
  outputs, the input is bound, under its sanitized name, to the handle of that dependency's
  component for the sanitized name; otherwise to the raw name.
\<close>

definition bound_as_specified ::
  "(string \<rightharpoonup> component) \<Rightarrow> node list \<Rightarrow> component \<Rightarrow> string \<Rightarrow> bool" where
  "bound_as_specified comps deps c i \<longleftrightarrow>
     (case find (\<lambda>d. i \<in> set (outputs d)) deps of
        Some d \<Rightarrow>
          (case comps (name d) of
             None \<Rightarrow> False
           | Some w \<Rightarrow>
               comp_inputs c (sanitize_param_name i)
                 = Some (Upstream \<lparr>owner = comp_id w, port = sanitize_param_name i\<rparr>))
      | None \<Rightarrow> comp_inputs c (sanitize_param_name i) = Some (Literal i))"

definition wired_as_specified :: "pipeline \<Rightarrow> (string \<rightharpoonup> component) \<Rightarrow> node \<Rightarrow> bool" where
  "wired_as_specified p comps n \<longleftrightarrow>
     (case node_dependencies p n of
        None \<Rightarrow> False
      | Some deps \<Rightarrow>
          (case comps (name n) of
             None \<Rightarrow> False
           | Some c \<Rightarrow> \<forall>i \<in> set (inputs n). bound_as_specified comps deps c i))"

text \<open>
  Completeness: an input that is a pipeline input is bound to its raw name; any other input
  with a producer among the node's dependencies is bound to the handle of that producer's
  component.
\<close>

definition complete_bindings :: "pipeline \<Rightarrow> (string \<rightharpoonup> component) \<Rightarrow> node \<Rightarrow> bool" where
  "complete_bindings p comps n \<longleftrightarrow>
     (case node_dependencies p n of
        None \<Rightarrow> False
      | Some deps \<Rightarrow>
          (case comps (name n) of
             None \<Rightarrow> False
           | Some c \<Rightarrow>
               \<forall>i \<in> set (inputs n).
                 if i \<in> set (pipeline_inputs p)
                 then comp_inputs c (sanitize_param_name i) = Some (Literal i)
                 else \<forall>m \<in> set deps. i \<in> set (outputs m) \<longrightarrow>
                   (case comps (name m) of
                      None \<Rightarrow> False
                    | Some w \<Rightarrow>
                        comp_inputs c (sanitize_param_name i)
                          = Some (Upstream \<lparr>owner = comp_id w, port = sanitize_param_name i\<rparr>))))"

definition wiring_claim :: "pipeline \<Rightarrow> error + (string \<rightharpoonup> component) \<Rightarrow> bool" where
  "wiring_claim p r \<longleftrightarrow>
     (case r of
        Inl e \<Rightarrow> True
      | Inr comps \<Rightarrow>
          \<forall>n \<in> set (nodes p). wired_as_specified p comps n \<and> complete_bindings p comps n)"

text \<open>
  Output resolution: a declared pipeline output is resolved when the result maps its
  sanitized name to the handle, for that sanitized name, of the component of the first node
  that lists it. The first unresolvable output is the first declared output, in iteration
  order, that no node lists.
\<close>

definition output_resolved ::
  "pipeline \<Rightarrow> (string \<rightharpoonup> component) \<Rightarrow> (string \<rightharpoonup> handle) \<Rightarrow> string \<Rightarrow> bool" where
  "output_resolved p comps m out \<longleftrightarrow>
     (case find (\<lambda>n. out \<in> set (outputs n)) (nodes p) of
        None \<Rightarrow> False
      | Some source_node \<Rightarrow>
          (case comps (name source_node) of
             None \<Rightarrow> False
           | Some c \<Rightarrow>
               m (sanitize_param_name out)
                 = Some \<lparr>owner = comp_id c, port = sanitize_param_name out\<rparr>))"

definition first_unresolvable :: "pipeline \<Rightarrow> string option" where
  "first_unresolvable p =
     find (\<lambda>out. find (\<lambda>n. out \<in> set (outputs n)) (nodes p) = None) (pipeline_outputs p)"

definition resolver_claim ::
  "pipeline \<Rightarrow> (string \<rightharpoonup> component) \<Rightarrow> error + (string \<rightharpoonup> handle) \<Rightarrow> bool" where
  "resolver_claim p comps r \<longleftrightarrow>
     (case r of
        Inr m \<Rightarrow>
          first_unresolvable p = None
          \<and> (\<forall>out \<in> set (pipeline_outputs p). output_resolved p comps m out)
      | Inl e \<Rightarrow>
          (case first_unresolvable p of
             None \<Rightarrow> False
           | Some out \<Rightarrow> e = ValueError (no_producer_message out)))"

definition outputs_claim ::
  "('ts kedro_azure_runner_config \<Rightarrow> string) \<Rightarrow> 'ts generator \<Rightarrow> pipeline \<Rightarrow> string \<Rightarrow> bool" where
  "outputs_claim json g p kedro_azure_run_id \<longleftrightarrow>
     (case connect_commands p (build_commands json g p kedro_azure_run_id) of
        Inl e \<Rightarrow> True
      | Inr comps \<Rightarrow> resolver_claim p comps (gather_pipeline_outputs p comps))"

section \<open>Example inputs\<close>

text \<open>
  A generator, a serializer and the pipeline of the specification's scenario: node \<open>a\<close>
  produces \<open>raw\<close>; node \<open>b\<close> reads \<open>raw\<close> and the pipeline input \<open>settings\<close> and produces
  \<open>clean\<close>, the pipeline's output.
\<close>

definition example_generator :: "unit generator" where
  "example_generator =
     \<lparr>storage_account_key = Some ''key'', kedro_environment = ''local'', params = None,
      docker_image = None,
      config = \<lparr>azure_temporary_storage = (), docker_image_default = ''base:latest''\<rparr>,
      pipeline_name = ''__default__''\<rparr>"

definition example_json :: "unit kedro_azure_runner_config \<Rightarrow> string" where
  "example_json rc =
     ''{run_id: '' @ run_id rc @ '', storage_account_key: ''
     @ (case runner_storage_account_key rc of None \<Rightarrow> ''null'' | Some k \<Rightarrow> k) @ ''}''"

definition node_a :: node where
  "node_a = \<lparr>name = ''a'', inputs = [], outputs = [''raw'']\<rparr>"

definition node_b :: node where
  "node_b = \<lparr>name = ''b'', inputs = [''raw'', ''settings''], outputs = [''clean'']\<rparr>"

definition example_pipeline :: pipeline where
  "example_pipeline =
     \<lparr>nodes = [node_a, node_b],
      node_dependencies = [node_a \<mapsto> [], node_b \<mapsto> [node_a]],
      pipeline_inputs = [''settings''],
      pipeline_outputs = [''clean'']\<rparr>"

text \<open>The same pipeline with a declared output \<open>missing\<close> that no node produces.\<close>

definition missing_pipeline :: pipeline where
  "missing_pipeline = example_pipeline\<lparr>pipeline_outputs := [''clean'', ''missing'']\<rparr>"

text \<open>
  Pipelines in which two dataset names have the same sanitized name \<open>a\<close>. In the first,
  node \<open>n\<close> reads the pipeline input \<open>A\<close> and the dataset \<open>a\<close> that node \<open>p\<close> produces. In
  the second, the nodes \<open>n1\<close> and \<open>n2\<close> produce the pipeline outputs \<open>A\<close> and \<open>a\<close>.
\<close>

definition node_p :: node where
  "node_p = \<lparr>name = ''p'', inputs = [], outputs = [''a'']\<rparr>"

definition node_n :: node where
  "node_n = \<lparr>name = ''n'', inputs = [''A'', ''a''], outputs = []\<rparr>"

definition colliding_inputs_pipeline :: pipeline where
  "colliding_inputs_pipeline =
     \<lparr>nodes = [node_p, node_n],
      node_dependencies = [node_p \<mapsto> [], node_n \<mapsto> [node_p]],
      pipeline_inputs = [''A''],
      pipeline_outputs = []\<rparr>"

definition node_n1 :: node where
  "node_n1 = \<lparr>name = ''n1'', inputs = [], outputs = [''A'']\<rparr>"

definition node_n2 :: node where
  "node_n2 = \<lparr>name = ''n2'', inputs = [], outputs = [''a'']\<rparr>"

definition colliding_outputs_pipeline :: pipeline where
  "colliding_outputs_pipeline =
     \<lparr>nodes = [node_n1, node_n2],
      node_dependencies = [node_n1 \<mapsto> [], node_n2 \<mapsto> []],
      pipeline_inputs = [],
      pipeline_outputs = [''A'', ''a'']\<rparr>"

text \<open>
  The command of a node and the commands of a pipeline, built by the example generator for
  the run identifier \<open>run1\<close>; the binding of a parameter of a node's component in the result
  of the wiring.
\<close>

abbreviation (input) cmd_of :: "pipeline \<Rightarrow> node \<Rightarrow> command_step" where
  "cmd_of p n \<equiv> construct_azure_command example_json example_generator p n ''run1''"

abbreviation (input) cmds_of :: "pipeline \<Rightarrow> (string \<rightharpoonup> command_step)" where
  "cmds_of p \<equiv> build_commands example_json example_generator p ''run1''"

definition binding_of ::
  "error + (string \<rightharpoonup> component) \<Rightarrow> string \<Rightarrow> string \<Rightarrow> binding option" where
  "binding_of r nm k =
     (case r of
        Inl e \<Rightarrow> None
      | Inr comps \<Rightarrow> (case comps nm of None \<Rightarrow> None | Some c \<Rightarrow> comp_inputs c k))"

section \<open>Properties of the sanitizers\<close>

lemma code_inj: "code c = code d \<longleftrightarrow> c = d"
  by (simp add: code_def)

lemma in_param_class: "in_ranges param_class c \<longleftrightarrow> param_char c"
proof -
  have "code c = 95 \<longleftrightarrow> c = CHR ''_''"
    using code_inj [of c "CHR ''_''"] by (simp add: code_def)
  then show ?thesis
    by (auto simp add: in_ranges_def param_class_def param_char_def code_def)
qed

lemma re_sub_single:
  "re_sub_negated_class rs [r] s = map (\<lambda>c. if in_ranges rs c then c else r) s"
  by (induction s) simp_all

lemma sanitize_param_name_spec: "sanitize_param_name s = spec_sanitize_parameter s"
  by (simp add: sanitize_param_name_def spec_sanitize_parameter_def re_sub_single in_param_class)

lemma lower_param_char: "param_char c \<Longrightarrow> lower_char c = c"
  by (auto simp add: param_char_def lower_char_def code_def)

lemma param_char_sanitized: "c \<in> set (sanitize_param_name s) \<Longrightarrow> param_char c"
  by (auto simp add: sanitize_param_name_spec spec_sanitize_parameter_def param_char_def)

lemma sanitize_param_name_fixed:
  "\<forall>c \<in> set s. param_char c \<Longrightarrow> sanitize_param_name s = s"
  by (induction s)
    (simp_all add: sanitize_param_name_spec spec_sanitize_parameter_def lower_def lower_param_char)

lemma replace_char:
  "replace [a] new s = concat (map (\<lambda>c. if c = a then new else [c]) s)"
  by (induction s) auto

lemma sanitize_azure_name_spec: "sanitize_azure_name s = spec_sanitize_identifier s"
  by (simp add: sanitize_azure_name_def spec_sanitize_identifier_def replace_char)

lemma join_cons: "xs \<noteq> [] \<Longrightarrow> join sep (x # xs) = x @ sep @ join sep xs"
  by (cases xs) simp_all

lemma sanitize_example: "sanitize_param_name ''Some Value!'' = ''some_value_''"
  by code_simp

lemma sanitize_azure_example: "sanitize_azure_name ''my.node'' = ''my__node''"
  by code_simp

text \<open>
  Claim C7. For every string, the parameter sanitizer returns the lower-cased string with
  every character outside \<^verbatim>\<open>[a-z0-9_]\<close> replaced by an underscore, one for one; the
  dataset name \<^verbatim>\<open>Some Value!\<close> becomes \<^verbatim>\<open>some_value_\<close>. The function is total: it is
  defined by recursion on the string and has no error branch.
\<close>

theorem sanitize_param_name_lowercase_then_replace:
  "sanitize_param_name s = map (\<lambda>c. if param_char c then c else CHR ''_'') (lower s)
   \<and> length (sanitize_param_name s) = length s
   \<and> sanitize_param_name ''Some Value!'' = ''some_value_''"
proof -
  have "sanitize_param_name s = map (\<lambda>c. if param_char c then c else CHR ''_'') (lower s)"
    by (simp add: sanitize_param_name_spec spec_sanitize_parameter_def)
  moreover from this have "length (sanitize_param_name s) = length s"
    by (simp add: lower_def)
  ultimately show ?thesis
    using sanitize_example by blast
qed

theorem sanitize_param_name_lowercase_then_replace_witness:
  "sanitize_param_name ''a.B'' = ''a_b'' \<and> length (sanitize_param_name ''a.B'') = 3"
proof -
  have "map (\<lambda>c. if param_char c then c else CHR ''_'') (lower ''a.B'') = ''a_b''"
    by code_simp
  with sanitize_param_name_lowercase_then_replace [of "''a.B''"] show ?thesis
    by simp
qed

text \<open>
  Claim C8. For every string, the identifier sanitizer returns the lower-cased string with
  every full stop replaced by two underscores; the node name \<^verbatim>\<open>my.node\<close> becomes
  \<^verbatim>\<open>my__node\<close>. The step identifier of a command step is this sanitization of the node
  name, and the display name is the node name unchanged.
\<close>

theorem sanitize_azure_name_step_identifier:
  "sanitize_azure_name s = concat (map (\<lambda>c. if c = CHR ''.'' then ''__'' else [c]) (lower s))
   \<and> sanitize_azure_name ''my.node'' = ''my__node''
   \<and> step_name (construct_azure_command json g p n rid) = sanitize_azure_name (name n)
   \<and> display_name (construct_azure_command json g p n rid) = name n"
  using sanitize_azure_name_spec [of s]
  by (simp add: sanitize_azure_example spec_sanitize_identifier_def construct_azure_command_def)

theorem sanitize_azure_name_step_identifier_witness:
  "step_name (construct_azure_command example_json example_generator example_pipeline
      \<lparr>name = ''my.node'', inputs = [], outputs = []\<rparr> ''run1'') = ''my__node''
   \<and> display_name (construct_azure_command example_json example_generator example_pipeline
      \<lparr>name = ''my.node'', inputs = [], outputs = []\<rparr> ''run1'') = ''my.node''"
proof -
  note c = sanitize_azure_name_step_identifier
    [of "''my.node''" example_json example_generator example_pipeline
      "\<lparr>name = ''my.node'', inputs = [], outputs = []\<rparr>" "''run1''"]
  from c have "sanitize_azure_name ''my.node'' = ''my__node''"
    by blast
  with c show ?thesis
    by (simp del: One_nat_def)
qed

text \<open>
  Claim C9. The parameter sanitizer is idempotent: sanitizing a sanitized name changes
  nothing.
\<close>

theorem sanitize_param_name_idempotent:
  "sanitize_param_name (sanitize_param_name x) = sanitize_param_name x"
  by (rule sanitize_param_name_fixed) (simp add: param_char_sanitized)

theorem sanitize_param_name_idempotent_witness:
  "sanitize_param_name (sanitize_param_name ''Some Value!'') = ''some_value_''"
  using sanitize_param_name_idempotent [of "''Some Value!''"]
  by (simp add: sanitize_example)

text \<open>
  Claim C10. The container image of a built command step is the override given to the
  generator when that override is a non-empty string; when the override is \<open>None\<close> or the
  empty string, it is the default image of the configuration.
\<close>

theorem docker_image_override:
  "(docker_image g = Some s \<and> s \<noteq> [] \<longrightarrow>
      image (step_environment (construct_azure_command json g p n rid)) = s)
   \<and> (docker_image g = None \<or> docker_image g = Some [] \<longrightarrow>
      image (step_environment (construct_azure_command json g p n rid))
        = docker_image_default (config g))"
  by (auto simp add: construct_azure_command_def or_else_def)

theorem docker_image_override_witness:
  "image (step_environment (construct_azure_command example_json
      (example_generator\<lparr>docker_image := Some ''custom:1''\<rparr>) example_pipeline node_b ''run1''))
     = ''custom:1''
   \<and> image (step_environment (construct_azure_command example_json
      (example_generator\<lparr>docker_image := Some []\<rparr>) example_pipeline node_b ''run1''))
     = ''base:latest''
   \<and> image (step_environment (construct_azure_command example_json
      example_generator example_pipeline node_b ''run1''))
     = ''base:latest''"
  using docker_image_override
    [of "example_generator\<lparr>docker_image := Some ''custom:1''\<rparr>" "''custom:1''"
      example_json example_pipeline node_b "''run1''"]
    docker_image_override
    [of "example_generator\<lparr>docker_image := Some []\<rparr>" "[]"
      example_json example_pipeline node_b "''run1''"]
    docker_image_override
    [of example_generator "[]" example_json example_pipeline node_b "''run1''"]
  by (simp add: example_generator_def)

text \<open>
  Claim C3. The command string of a node is the \<^verbatim>\<open>kedro run\<close> call of that node alone, under
  the generator's environment and pipeline name, followed, if and only if the node has an
  output, by one \<^verbatim>\<open>echo\<close> of a non-empty text into each output's location; the call and the
  writes are chained by \<^verbatim>\<open>&&\<close>, the call first. A node without outputs gets the bare call.
  That \<^verbatim>\<open>&&\<close> runs its right side only after its left side succeeded is the shell's
  behaviour; the theorem states the shape of the string.
\<close>

theorem prepare_command_chain:
  "prepare_command g n = join '' && '' (kedro_run g n # map echo_output (outputs n))
   \<and> (outputs n = [] \<longrightarrow> prepare_command g n = kedro_run g n)
   \<and> (outputs n \<noteq> [] \<longleftrightarrow> length (kedro_run g n) < length (prepare_command g n))
   \<and> kedro_run g n = ''cd /home/kedro && kedro run -e '' @ kedro_environment g
        @ '' --pipeline='' @ pipeline_name g @ '' --node='' @ name n
        @ '' --runner=kedroazureml.azurerunner.AzurePipelinesRunner''
   \<and> (\<forall>nm \<in> set (outputs n). echo_output nm =
        ''echo 'Show must go on!' > ${{outputs.'' @ sanitize_param_name nm @ ''}}/output.txt'')"
  by (auto simp add: prepare_command_def join_cons kedro_run_def echo_output_def)

theorem prepare_command_chain_witness:
  "prepare_command example_generator \<lparr>name = ''b'', inputs = [''raw''], outputs = [''Clean 1'']\<rparr>
     = ''cd /home/kedro && kedro run -e local --pipeline=__default__ --node=b''
       @ '' --runner=kedroazureml.azurerunner.AzurePipelinesRunner''
       @ '' && echo 'Show must go on!' > ${{outputs.clean_1}}/output.txt''
   \<and> prepare_command example_generator \<lparr>name = ''c'', inputs = [''raw''], outputs = []\<rparr>
     = ''cd /home/kedro && kedro run -e local --pipeline=__default__ --node=c''
       @ '' --runner=kedroazureml.azurerunner.AzurePipelinesRunner''"
proof -
  have s: "sanitize_param_name ''Clean 1'' = ''clean_1''"
    by code_simp
  show ?thesis
    using prepare_command_chain
      [of example_generator "\<lparr>name = ''b'', inputs = [''raw''], outputs = [''Clean 1'']\<rparr>"]
      prepare_command_chain
      [of example_generator "\<lparr>name = ''c'', inputs = [''raw''], outputs = []\<rparr>"]
    by (simp add: s example_generator_def)
qed

text \<open>
  Claim C4. Two lowerings agree on every node's command string and on its environment
  payload when they are given the same pipeline, the same run identifier and generators
  with the same environment name, pipeline name, temporary storage and storage key; the
  generators may differ in everything else, the unused \<open>params\<close> for one. The payload is
  the serializer applied to a record of the temporary storage, the run identifier and the
  storage key.
\<close>

theorem lowering_deterministic:
  assumes "kedro_environment g1 = kedro_environment g2"
    and "pipeline_name g1 = pipeline_name g2"
    and "azure_temporary_storage (config g1) = azure_temporary_storage (config g2)"
    and "storage_account_key g1 = storage_account_key g2"
  shows "command (construct_azure_command json g1 p n rid)
           = command (construct_azure_command json g2 p n rid)
         \<and> environment_variables (construct_azure_command json g1 p n rid)
           = environment_variables (construct_azure_command json g2 p n rid)
         \<and> environment_variables (construct_azure_command json g1 p n rid)
           = [(''KEDRO_AZURE_RUNNER_CONFIG'',
               json \<lparr>temporary_storage = azure_temporary_storage (config g1), run_id = rid,
                     runner_storage_account_key = storage_account_key g1\<rparr>)]"
  using assms
  by (simp add: construct_azure_command_def prepare_command_def kedro_run_def)

theorem lowering_deterministic_witness:
  "command (construct_azure_command example_json example_generator example_pipeline node_b ''run1'')
     = command (construct_azure_command example_json
         (example_generator\<lparr>params := Some [''x''], docker_image := Some ''other''\<rparr>)
         example_pipeline node_b ''run1'')
   \<and> environment_variables
       (construct_azure_command example_json example_generator example_pipeline node_b ''run1'')
     = environment_variables (construct_azure_command example_json
         (example_generator\<lparr>params := Some [''x''], docker_image := Some ''other''\<rparr>)
         example_pipeline node_b ''run1'')
   \<and> environment_variables
       (construct_azure_command example_json example_generator example_pipeline node_b ''run1'')
     = [(''KEDRO_AZURE_RUNNER_CONFIG'', ''{run_id: run1, storage_account_key: key}'')]
   \<and> example_generator
     \<noteq> example_generator\<lparr>params := Some [''x''], docker_image := Some ''other''\<rparr>"
proof -
  let ?g = "example_generator\<lparr>params := Some [''x''], docker_image := Some ''other''\<rparr>"
  have ne: "example_generator \<noteq> ?g"
    by (simp add: example_generator_def)
  have e: "environment_variables
       (construct_azure_command example_json example_generator example_pipeline node_b ''run1'')
     = [(''KEDRO_AZURE_RUNNER_CONFIG'', ''{run_id: run1, storage_account_key: key}'')]"
    by (simp add: construct_azure_command_def example_generator_def example_json_def)
  have "command (construct_azure_command example_json example_generator example_pipeline node_b ''run1'')
     = command (construct_azure_command example_json ?g example_pipeline node_b ''run1'')
   \<and> environment_variables
       (construct_azure_command example_json example_generator example_pipeline node_b ''run1'')
     = environment_variables (construct_azure_command example_json ?g example_pipeline node_b ''run1'')"
    using lowering_deterministic
      [of example_generator ?g example_json example_pipeline node_b "''run1''"]
    by simp
  with e ne show ?thesis
    by blast
qed

section \<open>Dictionaries and the command step builder\<close>

lemma fold_upd_keep:
  "m0 k = Some v \<Longrightarrow> \<forall>y \<in> set xs. key y = k \<longrightarrow> val y = v
     \<Longrightarrow> fold (\<lambda>x m. m(key x \<mapsto> val x)) xs m0 k = Some v"
  by (induction xs arbitrary: m0) auto

lemma fold_upd_member:
  "x \<in> set xs \<Longrightarrow> \<forall>y \<in> set xs. key y = key x \<longrightarrow> val y = val x
     \<Longrightarrow> fold (\<lambda>x m. m(key x \<mapsto> val x)) xs m0 (key x) = Some (val x)"
proof (induction xs arbitrary: m0)
  case Nil
  then show ?case by simp
next
  case (Cons a xs)
  from Cons.prems(2) have rest: "\<forall>y \<in> set xs. key y = key x \<longrightarrow> val y = val x"
    by simp
  show ?case
  proof (cases "x \<in> set xs")
    case True
    from Cons.IH [OF True rest] show ?thesis
      by (simp only: fold_simps comp_apply)
  next
    case False
    with Cons.prems(1) have "a = x"
      by simp
    have "fold (\<lambda>x m. m(key x \<mapsto> val x)) xs (m0(key x \<mapsto> val x)) (key x) = Some (val x)"
      using rest by (intro fold_upd_keep) simp_all
    with \<open>a = x\<close> show ?thesis
      by (simp only: fold_simps comp_apply)
  qed
qed

lemma dict_comp_member:
  "x \<in> set xs \<Longrightarrow> \<forall>y \<in> set xs. key y = key x \<longrightarrow> val y = val x
     \<Longrightarrow> dict_comp key val xs (key x) = Some (val x)"
  unfolding dict_comp_def by (rule fold_upd_member)

lemma build_commands_dict:
  "build_commands json g p rid
     = dict_comp name (\<lambda>n. construct_azure_command json g p n rid) (nodes p)"
  by (simp add: build_commands_def dict_comp_def)

lemma build_commands_node:
  assumes "distinct (map name (nodes p))" and "n \<in> set (nodes p)"
  shows "build_commands json g p rid (name n) = Some (construct_azure_command json g p n rid)"
proof -
  from assms have "\<forall>y \<in> set (nodes p). name y = name n \<longrightarrow> y = n"
    by (auto simp add: distinct_map dest: inj_onD)
  with assms(2) show ?thesis
    unfolding build_commands_dict by (intro dict_comp_member) auto
qed

lemma step_outputs_declared:
  "nm \<in> set (outputs n)
     \<Longrightarrow> step_outputs (construct_azure_command json g p n rid) (sanitize_param_name nm)
           = Some Output_default"
  by (simp add: construct_azure_command_def dict_comp_member)


lemma step_inputs_declared:
  assumes "i \<in> set (inputs n)"
    and "\<forall>j \<in> set (inputs n). sanitize_param_name j = sanitize_param_name i
      \<longrightarrow> (j \<in> set (pipeline_inputs p) \<longleftrightarrow> i \<in> set (pipeline_inputs p))"
  shows "step_inputs (construct_azure_command json g p n rid) (sanitize_param_name i)
      = Some (if i \<in> set (pipeline_inputs p) then Input_string else Input_default)"
proof -
  let ?val = "\<lambda>nm. if nm \<in> set (pipeline_inputs p) then Input_string else Input_default"
  from assms(2) have "\<forall>j \<in> set (inputs n). sanitize_param_name j = sanitize_param_name i
      \<longrightarrow> ?val j = ?val i"
    by simp
  with assms(1) have "dict_comp sanitize_param_name ?val (inputs n) (sanitize_param_name i)
      = Some (?val i)"
    by (rule dict_comp_member)
  then show ?thesis
    by (simp only: construct_azure_command_def command_step.simps)
qed

section \<open>The inner loop of the wiring\<close>

lemma comp_outputs_Inr:
  "comp_outputs w k = Inr h \<longleftrightarrow>
     step_outputs (comp_command w) k \<noteq> None \<and> h = \<lparr>owner = comp_id w, port = k\<rparr>"
  by (auto simp add: comp_outputs_def split: option.splits)

lemma bind_inputs_other:
  "bind_inputs ic deps ins az0 = Inr az \<Longrightarrow> k \<notin> sanitize_param_name ` set ins \<Longrightarrow> az k = az0 k"
  by (induction ins arbitrary: az0) (auto split: option.splits sum.splits)

lemma bind_inputs_bound:
  assumes "bind_inputs ic deps ins az0 = Inr az"
    and "i \<in> set ins"
    and "inj_on sanitize_param_name (set ins)"
  shows "case find (\<lambda>d. i \<in> set (outputs d)) deps of
           Some d \<Rightarrow>
             (\<exists>w. ic (name d) = Some w
               \<and> az (sanitize_param_name i)
                 = Some (Upstream \<lparr>owner = comp_id w, port = sanitize_param_name i\<rparr>))
         | None \<Rightarrow> az (sanitize_param_name i) = Some (Literal i)"
  using assms
proof (induction ins arbitrary: az0)
  case Nil
  then show ?case by simp
next
  case (Cons j ins)
  from Cons.prems(3) have inj: "inj_on sanitize_param_name (set ins)"
    by (simp add: inj_on_def)
  show ?case
  proof (cases "i \<in> set ins")
    case True
    from Cons.prems(1) obtain az1 where "bind_inputs ic deps ins az1 = Inr az"
      by (auto split: option.splits sum.splits)
    from Cons.IH [OF this True inj] show ?thesis .
  next
    case False
    with Cons.prems(2) have ij: "j = i"
      by simp
    from False Cons.prems(3) ij have fresh: "sanitize_param_name i \<notin> sanitize_param_name ` set ins"
      by (auto simp add: inj_on_def)
    show ?thesis
    proof (cases "find (\<lambda>d. i \<in> set (outputs d)) deps")
      case None
      with Cons.prems(1) ij
      have "bind_inputs ic deps ins (az0(sanitize_param_name i \<mapsto> Literal i)) = Inr az"
        by simp
      from bind_inputs_other [OF this fresh] None show ?thesis
        by simp
    next
      case (Some d)
      with Cons.prems(1) ij obtain w where w: "ic (name d) = Some w"
        and rest: "bind_inputs ic deps ins
          (az0(sanitize_param_name i \<mapsto> Upstream \<lparr>owner = comp_id w, port = sanitize_param_name i\<rparr>))
          = Inr az"
        by (auto simp add: comp_outputs_Inr split: option.splits sum.splits)
      from bind_inputs_other [OF rest fresh] Some w show ?thesis
        by simp
    qed
  qed
qed

lemma bind_inputs_upstream:
  "bind_inputs ic deps ins az0 = Inr az \<Longrightarrow> az k = Some (Upstream h)
     \<Longrightarrow> az0 k = Some (Upstream h) \<or> (\<exists>d \<in> set deps. \<exists>w. ic (name d) = Some w \<and> owner h = comp_id w)"
proof (induction ins arbitrary: az0)
  case Nil
  then show ?case by simp
next
  case (Cons j ins)
  show ?case
  proof (cases "find (\<lambda>d. j \<in> set (outputs d)) deps")
    case None
    with Cons.prems(1)
    have "bind_inputs ic deps ins (az0(sanitize_param_name j \<mapsto> Literal j)) = Inr az"
      by simp
    from Cons.IH [OF this Cons.prems(2)] show ?thesis
      by (auto split: if_splits)
  next
    case (Some d)
    then have d: "d \<in> set deps"
      by (auto simp add: find_Some_iff)
    from Some Cons.prems(1) obtain w where w: "ic (name d) = Some w"
      and rest: "bind_inputs ic deps ins
        (az0(sanitize_param_name j \<mapsto> Upstream \<lparr>owner = comp_id w, port = sanitize_param_name j\<rparr>))
        = Inr az"
      by (auto simp add: comp_outputs_Inr split: option.splits sum.splits)
    from Cons.IH [OF rest Cons.prems(2)] show ?thesis
    proof
      assume "(az0(sanitize_param_name j \<mapsto> Upstream \<lparr>owner = comp_id w, port = sanitize_param_name j\<rparr>)) k
          = Some (Upstream h)"
      then show ?thesis
      proof (cases "k = sanitize_param_name j")
        case True
        with \<open>(az0(sanitize_param_name j \<mapsto> Upstream \<lparr>owner = comp_id w, port = sanitize_param_name j\<rparr>)) k
          = Some (Upstream h)\<close>
        have "owner h = comp_id w"
          by auto
        with d w show ?thesis
          by blast
      next
        case False
        with \<open>(az0(sanitize_param_name j \<mapsto> Upstream \<lparr>owner = comp_id w, port = sanitize_param_name j\<rparr>)) k
          = Some (Upstream h)\<close>
        show ?thesis
          by simp
      qed
    next
      assume "\<exists>d \<in> set deps. \<exists>w. ic (name d) = Some w \<and> owner h = comp_id w"
      then show ?thesis ..
    qed
  qed
qed

lemma bind_inputs_succeeds:
  assumes "\<forall>i \<in> set ins. \<forall>d. find (\<lambda>d. i \<in> set (outputs d)) deps = Some d \<longrightarrow>
      (\<exists>w. ic (name d) = Some w \<and> step_outputs (comp_command w) (sanitize_param_name i) \<noteq> None)"
  shows "\<exists>az. bind_inputs ic deps ins az0 = Inr az"
  using assms
proof (induction ins arbitrary: az0)
  case Nil
  then show ?case by simp
next
  case (Cons j ins)
  then have IH: "\<And>az0. \<exists>az. bind_inputs ic deps ins az0 = Inr az"
    by simp
  show ?case
  proof (cases "find (\<lambda>d. j \<in> set (outputs d)) deps")
    case None
    with IH show ?thesis by simp
  next
    case (Some d)
    with Cons.prems obtain w where "ic (name d) = Some w"
      and "step_outputs (comp_command w) (sanitize_param_name j) \<noteq> None"
      by auto
    with Some IH show ?thesis
      by (auto simp add: comp_outputs_def)
  qed
qed

section \<open>The outer loop of the wiring\<close>

lemma connect_loop_other:
  "connect_loop p cmds ns ic k = Inr comps \<Longrightarrow> x \<notin> name ` set ns \<Longrightarrow> comps x = ic x"
  by (induction ns arbitrary: ic k) (auto split: option.splits sum.splits)

lemma connect_loop_node:
  assumes "connect_loop p cmds ns ic k = Inr comps"
    and "distinct (map name ns)"
    and "name ` set ns \<inter> dom ic = {}"
    and "j < length ns"
  shows "\<exists>deps az c ic'.
           node_dependencies p (ns ! j) = Some deps
           \<and> cmds (name (ns ! j)) = Some c
           \<and> comps (name (ns ! j)) = Some (invoke c (k + j) az)
           \<and> bind_inputs ic' deps (inputs (ns ! j)) Map.empty = Inr az
           \<and> ic' \<subseteq>\<^sub>m comps
           \<and> (\<forall>x w. ic' x = Some w \<longrightarrow> ic x = Some w \<or> comp_id w < k + j)"
  using assms
proof (induction ns arbitrary: ic k j)
  case Nil
  then show ?case by simp
next
  case (Cons n ns)
  from Cons.prems(1) obtain deps az c where deps: "node_dependencies p n = Some deps"
    and az: "bind_inputs ic deps (inputs n) Map.empty = Inr az"
    and c: "cmds (name n) = Some c"
    and rest: "connect_loop p cmds ns (ic(name n \<mapsto> invoke c k az)) (Suc k) = Inr comps"
    by (auto split: option.splits sum.splits)
  let ?ic1 = "ic(name n \<mapsto> invoke c k az)"
  from Cons.prems(2) have fresh: "name n \<notin> name ` set ns" and dist: "distinct (map name ns)"
    by auto
  from Cons.prems(3) have new: "name n \<notin> dom ic" and disj: "name ` set ns \<inter> dom ?ic1 = {}"
    using fresh by auto
  show ?case
  proof (cases j)
    case 0
    from connect_loop_other [OF rest fresh] have here: "comps (name n) = Some (invoke c k az)"
      by simp
    have "ic \<subseteq>\<^sub>m comps"
      unfolding map_le_def
    proof
      fix x assume x: "x \<in> dom ic"
      with Cons.prems(3) have "x \<notin> name ` set ns" and "x \<noteq> name n"
        by auto
      with connect_loop_other [OF rest, of x] show "ic x = comps x"
        by simp
    qed
    with 0 deps az c here show ?thesis
      by auto
  next
    case (Suc j')
    with Cons.prems(4) have "j' < length ns"
      by simp
    from Cons.IH [OF rest dist disj this] obtain deps' az' c' ic'
      where d': "node_dependencies p (ns ! j') = Some deps'"
        and c': "cmds (name (ns ! j')) = Some c'"
        and here: "comps (name (ns ! j')) = Some (invoke c' (Suc k + j') az')"
        and az': "bind_inputs ic' deps' (inputs (ns ! j')) Map.empty = Inr az'"
        and le: "ic' \<subseteq>\<^sub>m comps"
        and ids: "\<forall>x w. ic' x = Some w \<longrightarrow> ?ic1 x = Some w \<or> comp_id w < Suc k + j'"
      by blast
    have "\<forall>x w. ic' x = Some w \<longrightarrow> ic x = Some w \<or> comp_id w < k + j"
    proof (intro allI impI)
      fix x w assume "ic' x = Some w"
      with ids have "?ic1 x = Some w \<or> comp_id w < Suc k + j'"
        by blast
      then show "ic x = Some w \<or> comp_id w < k + j"
        using Suc by (auto simp add: invoke_def split: if_splits)
    qed
    with Suc d' c' here az' le show ?thesis
      by auto
  qed
qed

lemma connect_loop_succeeds:
  assumes "deps_before p earlier ns"
    and "distinct (map name (earlier @ ns))"
    and "\<forall>e \<in> set earlier. \<exists>w. ic (name e) = Some w
          \<and> (\<forall>out \<in> set (outputs e). step_outputs (comp_command w) (sanitize_param_name out) \<noteq> None)"
    and "\<forall>n \<in> set ns. \<exists>c. cmds (name n) = Some c
          \<and> (\<forall>out \<in> set (outputs n). step_outputs c (sanitize_param_name out) \<noteq> None)"
  shows "\<exists>comps. connect_loop p cmds ns ic k = Inr comps"
  using assms
proof (induction ns arbitrary: earlier ic k)
  case Nil
  then show ?case by simp
next
  case (Cons n ns)
  from Cons.prems(1) obtain deps where deps: "node_dependencies p n = Some deps"
    and sub: "set deps \<subseteq> set earlier" and before: "deps_before p (earlier @ [n]) ns"
    by (auto split: option.splits)
  have "\<forall>i \<in> set (inputs n). \<forall>d. find (\<lambda>d. i \<in> set (outputs d)) deps = Some d \<longrightarrow>
      (\<exists>w. ic (name d) = Some w \<and> step_outputs (comp_command w) (sanitize_param_name i) \<noteq> None)"
  proof (intro ballI allI impI)
    fix i d assume "find (\<lambda>d. i \<in> set (outputs d)) deps = Some d"
    then have "d \<in> set deps" and "i \<in> set (outputs d)"
      by (auto simp add: find_Some_iff)
    with sub Cons.prems(3)
    show "\<exists>w. ic (name d) = Some w \<and> step_outputs (comp_command w) (sanitize_param_name i) \<noteq> None"
      by blast
  qed
  from bind_inputs_succeeds [OF this] obtain az
    where az: "bind_inputs ic deps (inputs n) Map.empty = Inr az"
    by blast
  from Cons.prems(4) obtain c where c: "cmds (name n) = Some c"
    and covers: "\<forall>out \<in> set (outputs n). step_outputs c (sanitize_param_name out) \<noteq> None"
    by auto
  let ?ic1 = "ic(name n \<mapsto> invoke c k az)"
  from Cons.prems(2) have dist: "distinct (map name ((earlier @ [n]) @ ns))"
    by simp
  from Cons.prems(2) have "name n \<notin> name ` set earlier"
    by auto
  then have fresh: "\<forall>e \<in> set earlier. name e \<noteq> name n"
    by (metis imageI)
  have inv: "\<forall>e \<in> set (earlier @ [n]). \<exists>w. ?ic1 (name e) = Some w
      \<and> (\<forall>out \<in> set (outputs e). step_outputs (comp_command w) (sanitize_param_name out) \<noteq> None)"
  proof
    fix e assume "e \<in> set (earlier @ [n])"
    then consider "e = n" | "e \<in> set earlier" "name e \<noteq> name n"
      using fresh by auto
    then show "\<exists>w. ?ic1 (name e) = Some w
      \<and> (\<forall>out \<in> set (outputs e). step_outputs (comp_command w) (sanitize_param_name out) \<noteq> None)"
    proof cases
      case 1
      with covers show ?thesis
        by (simp add: invoke_def)
    next
      case 2
      with Cons.prems(3) show ?thesis
        by simp
    qed
  qed
  from Cons.prems(4) have "\<forall>n \<in> set ns. \<exists>c. cmds (name n) = Some c
      \<and> (\<forall>out \<in> set (outputs n). step_outputs c (sanitize_param_name out) \<noteq> None)"
    by simp
  from Cons.IH [OF before dist inv this, of "Suc k"] obtain comps
    where "connect_loop p cmds ns ?ic1 (Suc k) = Inr comps"
    by blast
  with deps az c show ?case
    by simp
qed

lemma connect_commands_node:
  assumes "connect_commands p cmds = Inr comps"
    and "distinct (map name (nodes p))"
    and "j < length (nodes p)"
  shows "\<exists>deps az c ic'.
           node_dependencies p (nodes p ! j) = Some deps
           \<and> cmds (name (nodes p ! j)) = Some c
           \<and> comps (name (nodes p ! j)) = Some (invoke c j az)
           \<and> bind_inputs ic' deps (inputs (nodes p ! j)) Map.empty = Inr az
           \<and> ic' \<subseteq>\<^sub>m comps
           \<and> (\<forall>x w. ic' x = Some w \<longrightarrow> comp_id w < j)"
proof -
  from assms(1) have "connect_loop p cmds (nodes p) Map.empty 0 = Inr comps"
    by (simp add: connect_commands_def)
  from connect_loop_node [OF this assms(2) _ assms(3)] show ?thesis
    by simp
qed

lemma connect_commands_wired:
  assumes "connect_commands p cmds = Inr comps"
    and "distinct (map name (nodes p))"
    and "n \<in> set (nodes p)"
    and "inj_on sanitize_param_name (set (inputs n))"
  shows "wired_as_specified p comps n"
proof -
  from assms(3) obtain j where j: "j < length (nodes p)" and n: "nodes p ! j = n"
    by (auto simp add: in_set_conv_nth)
  from connect_commands_node [OF assms(1,2) j] n obtain deps az c ic'
    where deps: "node_dependencies p n = Some deps"
      and here: "comps (name n) = Some (invoke c j az)"
      and az: "bind_inputs ic' deps (inputs n) Map.empty = Inr az"
      and le: "ic' \<subseteq>\<^sub>m comps"
    by auto
  have "bound_as_specified comps deps (invoke c j az) i" if i: "i \<in> set (inputs n)" for i
  proof (cases "find (\<lambda>d. i \<in> set (outputs d)) deps")
    case None
    with bind_inputs_bound [OF az i assms(4)] show ?thesis
      by (simp add: bound_as_specified_def invoke_def)
  next
    case (Some d)
    with bind_inputs_bound [OF az i assms(4)] obtain w where w: "ic' (name d) = Some w"
      and b: "az (sanitize_param_name i)
        = Some (Upstream \<lparr>owner = comp_id w, port = sanitize_param_name i\<rparr>)"
      by auto
    from w le have "comps (name d) = Some w"
      by (metis domI map_le_def)
    with Some b show ?thesis
      by (simp add: bound_as_specified_def invoke_def)
  qed
  with deps here show ?thesis
    by (simp add: wired_as_specified_def)
qed

lemma single_producer:
  assumes "length (filter P xs) = 1" and "x \<in> set xs" and "y \<in> set xs" and "P x" and "P y"
  shows "x = y"
proof -
  from assms(1) obtain z where "filter P xs = [z]"
    by (auto simp add: length_Suc_conv)
  moreover from assms have "x \<in> set (filter P xs)" and "y \<in> set (filter P xs)"
    by simp_all
  ultimately show ?thesis
    by simp
qed

lemma wired_complete:
  assumes "wired_as_specified p comps n"
    and "well_formed p"
    and "pipeline_invariant p"
    and "n \<in> set (nodes p)"
  shows "complete_bindings p comps n"
proof -
  from assms(1) obtain deps c where deps: "node_dependencies p n = Some deps"
    and c: "comps (name n) = Some c"
    and bound: "\<forall>i \<in> set (inputs n). bound_as_specified comps deps c i"
    by (auto simp add: wired_as_specified_def split: option.splits)
  from assms(2,4) deps have sub: "set deps \<subseteq> set (nodes p)"
    by (auto simp add: well_formed_def split: option.splits)
  from assms(3) have all: "\<forall>n \<in> set (nodes p). \<forall>i \<in> set (inputs n).
      if i \<in> set (pipeline_inputs p)
      then \<forall>m \<in> set (nodes p). i \<notin> set (outputs m)
      else length (filter (\<lambda>m. i \<in> set (outputs m)) (nodes p)) = 1"
    by (simp add: pipeline_invariant_def)
  have "if i \<in> set (pipeline_inputs p)
        then comp_inputs c (sanitize_param_name i) = Some (Literal i)
        else \<forall>m \<in> set deps. i \<in> set (outputs m) \<longrightarrow>
          (case comps (name m) of
             None \<Rightarrow> False
           | Some w \<Rightarrow>
               comp_inputs c (sanitize_param_name i)
                 = Some (Upstream \<lparr>owner = comp_id w, port = sanitize_param_name i\<rparr>))"
    if i: "i \<in> set (inputs n)" for i
  proof -
    from all assms(4) i have inv: "if i \<in> set (pipeline_inputs p)
        then \<forall>m \<in> set (nodes p). i \<notin> set (outputs m)
        else length (filter (\<lambda>m. i \<in> set (outputs m)) (nodes p)) = 1"
      by blast
    from bound i have b: "bound_as_specified comps deps c i"
      by blast
    show ?thesis
    proof (cases "i \<in> set (pipeline_inputs p)")
      case True
      with inv have "\<forall>m \<in> set (nodes p). i \<notin> set (outputs m)"
        by simp
      with sub have "find (\<lambda>d. i \<in> set (outputs d)) deps = None"
        by (auto simp add: find_None_iff)
      with b True show ?thesis
        by (simp add: bound_as_specified_def)
    next
      case False
      with inv have one: "length (filter (\<lambda>m. i \<in> set (outputs m)) (nodes p)) = 1"
        by simp
      have "case comps (name m) of
               None \<Rightarrow> False
             | Some w \<Rightarrow>
                 comp_inputs c (sanitize_param_name i)
                   = Some (Upstream \<lparr>owner = comp_id w, port = sanitize_param_name i\<rparr>)"
        if m: "m \<in> set deps" "i \<in> set (outputs m)" for m
      proof -
        from m obtain d where d: "find (\<lambda>d. i \<in> set (outputs d)) deps = Some d"
          by (cases "find (\<lambda>d. i \<in> set (outputs d)) deps") (auto simp add: find_None_iff)
        then have "d \<in> set deps" and "i \<in> set (outputs d)"
          by (auto simp add: find_Some_iff)
        with sub m have "d = m"
          by (intro single_producer [OF one]) auto
        with b d show ?thesis
          by (simp add: bound_as_specified_def)
      qed
      with False show ?thesis
        by simp
    qed
  qed
  with deps c show ?thesis
    by (simp add: complete_bindings_def)
qed

lemma connect_commands_succeeds:
  assumes "topologically_sorted p" and "distinct (map name (nodes p))"
  shows "\<exists>comps. connect_commands p (build_commands json g p rid) = Inr comps"
proof -
  have "\<forall>n \<in> set (nodes p). \<exists>c. build_commands json g p rid (name n) = Some c
      \<and> (\<forall>out \<in> set (outputs n). step_outputs c (sanitize_param_name out) \<noteq> None)"
    using assms(2) by (simp add: build_commands_node step_outputs_declared)
  with assms show ?thesis
    unfolding connect_commands_def topologically_sorted_def
    by (intro connect_loop_succeeds [where earlier = "[]"]) simp_all
qed

lemma connect_commands_order:
  assumes "connect_commands p cmds = Inr comps"
    and "distinct (map name (nodes p))"
    and "j < length (nodes p)"
  shows "\<exists>c. comps (name (nodes p ! j)) = Some c \<and> comp_id c = j
           \<and> (\<forall>k h. comp_inputs c k = Some (Upstream h) \<longrightarrow> owner h < j)"
proof -
  from connect_commands_node [OF assms] obtain deps az c ic'
    where here: "comps (name (nodes p ! j)) = Some (invoke c j az)"
      and az: "bind_inputs ic' deps (inputs (nodes p ! j)) Map.empty = Inr az"
      and ids: "\<forall>x w. ic' x = Some w \<longrightarrow> comp_id w < j"
    by blast
  have "owner h < j" if "az k = Some (Upstream h)" for k h
    using bind_inputs_upstream [OF az that] ids by auto
  with here show ?thesis
    by (simp add: invoke_def)
qed

lemma connect_loop_append:
  "connect_loop p cmds (xs @ ys) ic k =
     (case connect_loop p cmds xs ic k of
        Inl e \<Rightarrow> Inl e
      | Inr ic' \<Rightarrow> connect_loop p cmds ys ic' (k + length xs))"
  by (induction xs arbitrary: ic k) (auto split: option.splits sum.splits)

lemma connect_loop_dom:
  "connect_loop p cmds ns ic k = Inr comps \<Longrightarrow> dom comps = dom ic \<union> name ` set ns"
  by (induction ns arbitrary: ic k) (auto split: option.splits sum.splits)

lemma deps_before_nth:
  "deps_before p earlier ns \<Longrightarrow> j < length ns
     \<Longrightarrow> \<exists>deps. node_dependencies p (ns ! j) = Some deps \<and> set deps \<subseteq> set (earlier @ take j ns)"
proof (induction ns arbitrary: earlier j)
  case Nil
  then show ?case by simp
next
  case (Cons n ns)
  show ?case
  proof (cases j)
    case 0
    with Cons.prems(1) show ?thesis
      by (auto split: option.splits)
  next
    case (Suc j')
    with Cons.prems have "deps_before p (earlier @ [n]) ns" and "j' < length ns"
      by simp_all
    from Cons.IH [OF this] Suc show ?thesis
      by simp
  qed
qed

lemma connect_commands_prefix:
  assumes "connect_commands p cmds = Inr comps"
    and "topologically_sorted p"
    and "j < length (nodes p)"
  shows "\<exists>invoked deps. connect_loop p cmds (take j (nodes p)) Map.empty 0 = Inr invoked
           \<and> node_dependencies p (nodes p ! j) = Some deps
           \<and> (\<forall>d \<in> set deps. invoked (name d) \<noteq> None)"
proof -
  from assms(1) have "connect_loop p cmds (take j (nodes p) @ drop j (nodes p)) Map.empty 0 = Inr comps"
    by (simp add: connect_commands_def)
  then obtain invoked where inv: "connect_loop p cmds (take j (nodes p)) Map.empty 0 = Inr invoked"
    unfolding connect_loop_append by (auto split: sum.splits)
  from connect_loop_dom [OF inv] have dom: "dom invoked = name ` set (take j (nodes p))"
    by simp
  from assms(2,3) obtain deps where deps: "node_dependencies p (nodes p ! j) = Some deps"
    and sub: "set deps \<subseteq> set (take j (nodes p))"
    using deps_before_nth [of p "[]" "nodes p" j] by (auto simp add: topologically_sorted_def)
  have "\<forall>d \<in> set deps. invoked (name d) \<noteq> None"
  proof
    fix d assume "d \<in> set deps"
    with sub have "name d \<in> name ` set (take j (nodes p))"
      by blast
    with dom show "invoked (name d) \<noteq> None"
      by blast
  qed
  with inv deps show ?thesis
    by blast
qed

section \<open>The output resolver\<close>

lemma gather_loop_other:
  "gather_loop p comps outs acc = Inr m \<Longrightarrow> k \<notin> sanitize_param_name ` set outs \<Longrightarrow> m k = acc k"
  by (induction outs arbitrary: acc) (auto split: option.splits sum.splits)

lemma gather_loop_resolved:
  assumes "gather_loop p comps outs acc = Inr m"
    and "out \<in> set outs"
    and "inj_on sanitize_param_name (set outs)"
  shows "output_resolved p comps m out"
  using assms
proof (induction outs arbitrary: acc)
  case Nil
  then show ?case by simp
next
  case (Cons x outs)
  from Cons.prems(3) have inj: "inj_on sanitize_param_name (set outs)"
    by (simp add: inj_on_def)
  show ?case
  proof (cases "out \<in> set outs")
    case True
    from Cons.prems(1) obtain acc1 where "gather_loop p comps outs acc1 = Inr m"
      by (auto split: option.splits sum.splits)
    from Cons.IH [OF this True inj] show ?thesis .
  next
    case False
    with Cons.prems(2) have x: "x = out"
      by simp
    from False Cons.prems(3) x
    have fresh: "sanitize_param_name out \<notin> sanitize_param_name ` set outs"
      by (auto simp add: inj_on_def)
    from Cons.prems(1) x obtain src c
      where src: "find (\<lambda>n. out \<in> set (outputs n)) (nodes p) = Some src"
        and c: "comps (name src) = Some c"
        and rest: "gather_loop p comps outs
          (acc(sanitize_param_name out \<mapsto> \<lparr>owner = comp_id c, port = sanitize_param_name out\<rparr>))
          = Inr m"
      by (auto simp add: comp_outputs_Inr split: option.splits sum.splits)
    from gather_loop_other [OF rest fresh] src c show ?thesis
      by (simp add: output_resolved_def)
  qed
qed

lemma gather_loop_result:
  assumes "\<forall>n \<in> set (nodes p). \<exists>c. comps (name n) = Some c
      \<and> (\<forall>out \<in> set (outputs n). step_outputs (comp_command c) (sanitize_param_name out) \<noteq> None)"
  shows "case find (\<lambda>out. find (\<lambda>n. out \<in> set (outputs n)) (nodes p) = None) outs of
           Some out \<Rightarrow> gather_loop p comps outs acc = Inl (ValueError (no_producer_message out))
         | None \<Rightarrow> \<exists>m. gather_loop p comps outs acc = Inr m"
proof (induction outs arbitrary: acc)
  case Nil
  show ?case by simp
next
  case (Cons x outs)
  show ?case
  proof (cases "find (\<lambda>n. x \<in> set (outputs n)) (nodes p)")
    case None
    then show ?thesis by simp
  next
    case (Some src)
    then have "src \<in> set (nodes p)" and "x \<in> set (outputs src)"
      by (auto simp add: find_Some_iff)
    with assms obtain c where c: "comps (name src) = Some c"
      and "step_outputs (comp_command c) (sanitize_param_name x) \<noteq> None"
      by blast
    then have "comp_outputs c (sanitize_param_name x)
        = Inr \<lparr>owner = comp_id c, port = sanitize_param_name x\<rparr>"
      by (simp add: comp_outputs_Inr)
    with Some c
    have step: "gather_loop p comps (x # outs) acc = gather_loop p comps outs
        (acc(sanitize_param_name x \<mapsto> \<lparr>owner = comp_id c, port = sanitize_param_name x\<rparr>))"
      by simp
    from Some have "find (\<lambda>out. find (\<lambda>n. out \<in> set (outputs n)) (nodes p) = None) (x # outs)
        = find (\<lambda>out. find (\<lambda>n. out \<in> set (outputs n)) (nodes p) = None) outs"
      by simp
    with Cons.IH
      [of "acc(sanitize_param_name x \<mapsto> \<lparr>owner = comp_id c, port = sanitize_param_name x\<rparr>)"]
    show ?thesis
      by (simp only: step)
  qed
qed

lemma connect_commands_covers:
  assumes "connect_commands p (build_commands json g p rid) = Inr comps"
    and "distinct (map name (nodes p))"
    and "n \<in> set (nodes p)"
  shows "\<exists>c. comps (name n) = Some c
      \<and> (\<forall>out \<in> set (outputs n). step_outputs (comp_command c) (sanitize_param_name out) \<noteq> None)"
proof -
  from assms(3) obtain j where j: "j < length (nodes p)" and n: "nodes p ! j = n"
    by (auto simp add: in_set_conv_nth)
  from connect_commands_node [OF assms(1,2) j] n obtain az c
    where c: "build_commands json g p rid (name n) = Some c"
      and here: "comps (name n) = Some (invoke c j az)"
    by auto
  from c build_commands_node [OF assms(2,3), of json g rid]
  have "c = construct_azure_command json g p n rid"
    by simp
  with here show ?thesis
    by (simp add: invoke_def step_outputs_declared)
qed

lemma gather_pipeline_outputs_claim:
  assumes "connect_commands p (build_commands json g p rid) = Inr comps"
    and "distinct (map name (nodes p))"
    and "inj_on sanitize_param_name (set (pipeline_outputs p))"
  shows "resolver_claim p comps (gather_pipeline_outputs p comps)"
proof -
  have covers: "\<forall>n \<in> set (nodes p). \<exists>c. comps (name n) = Some c
      \<and> (\<forall>out \<in> set (outputs n). step_outputs (comp_command c) (sanitize_param_name out) \<noteq> None)"
    using connect_commands_covers [OF assms(1,2)] by blast
  note result = gather_loop_result [OF covers, of "pipeline_outputs p" Map.empty]
  show ?thesis
  proof (cases "first_unresolvable p")
    case None
    with result obtain m where m: "gather_pipeline_outputs p comps = Inr m"
      by (auto simp add: first_unresolvable_def gather_pipeline_outputs_def)
    then have "\<forall>out \<in> set (pipeline_outputs p). output_resolved p comps m out"
      using assms(3) by (auto simp add: gather_pipeline_outputs_def intro: gather_loop_resolved)
    with None m show ?thesis
      by (simp add: resolver_claim_def)
  next
    case (Some out)
    with result have "gather_pipeline_outputs p comps = Inl (ValueError (no_producer_message out))"
      by (simp add: first_unresolvable_def gather_pipeline_outputs_def)
    with Some show ?thesis
      by (simp add: resolver_claim_def)
  qed
qed

section \<open>The example pipelines, evaluated\<close>

lemma sanitized_names:
  "sanitize_param_name ''A'' = ''a''" "sanitize_param_name ''a'' = ''a''"
  "sanitize_param_name ''raw'' = ''raw''" "sanitize_param_name ''settings'' = ''settings''"
  "sanitize_param_name ''clean'' = ''clean''" "sanitize_param_name ''missing'' = ''missing''"
  by code_simp+

lemma node_fields:
  "name node_p = ''p''" "inputs node_p = []" "outputs node_p = [''a'']"
  "name node_n = ''n''" "inputs node_n = [''A'', ''a'']" "outputs node_n = []"
  "name node_a = ''a''" "inputs node_a = []" "outputs node_a = [''raw'']"
  "name node_b = ''b''" "inputs node_b = [''raw'', ''settings'']" "outputs node_b = [''clean'']"
  "name node_n1 = ''n1''" "inputs node_n1 = []" "outputs node_n1 = [''A'']"
  "name node_n2 = ''n2''" "inputs node_n2 = []" "outputs node_n2 = [''a'']"
  by (simp_all add: node_p_def node_n_def node_a_def node_b_def node_n1_def node_n2_def)

lemma colliding_inputs_fields:
  "nodes colliding_inputs_pipeline = [node_p, node_n]"
  "node_dependencies colliding_inputs_pipeline node_p = Some []"
  "node_dependencies colliding_inputs_pipeline node_n = Some [node_p]"
  "pipeline_inputs colliding_inputs_pipeline = [''A'']"
  "pipeline_outputs colliding_inputs_pipeline = []"
  by (simp_all add: colliding_inputs_pipeline_def node_p_def node_n_def)

lemma colliding_inputs_commands:
  "cmds_of colliding_inputs_pipeline ''p'' = Some (cmd_of colliding_inputs_pipeline node_p)"
  "cmds_of colliding_inputs_pipeline ''n'' = Some (cmd_of colliding_inputs_pipeline node_n)"
  by (simp_all add: build_commands_def colliding_inputs_fields node_fields)

lemma colliding_inputs_outputs:
  "step_outputs (cmd_of colliding_inputs_pipeline node_p) ''a'' = Some Output_default"
  by (simp add: construct_azure_command_def dict_comp_def node_fields sanitized_names)

lemma colliding_inputs_connect:
  "connect_commands colliding_inputs_pipeline (cmds_of colliding_inputs_pipeline)
     = Inr [''p'' \<mapsto> invoke (cmd_of colliding_inputs_pipeline node_p) 0 Map.empty,
            ''n'' \<mapsto> invoke (cmd_of colliding_inputs_pipeline node_n) 1
                     [''a'' \<mapsto> Upstream \<lparr>owner = 0, port = ''a''\<rparr>]]"
  by (simp add: connect_commands_def colliding_inputs_fields colliding_inputs_commands
      colliding_inputs_outputs node_fields sanitized_names comp_outputs_def invoke_def)

lemma example_fields:
  "nodes example_pipeline = [node_a, node_b]"
  "node_dependencies example_pipeline node_a = Some []"
  "node_dependencies example_pipeline node_b = Some [node_a]"
  "pipeline_inputs example_pipeline = [''settings'']"
  "pipeline_outputs example_pipeline = [''clean'']"
  by (simp_all add: example_pipeline_def node_a_def node_b_def)

lemma missing_fields:
  "nodes missing_pipeline = [node_a, node_b]"
  "node_dependencies missing_pipeline node_a = Some []"
  "node_dependencies missing_pipeline node_b = Some [node_a]"
  "pipeline_inputs missing_pipeline = [''settings'']"
  "pipeline_outputs missing_pipeline = [''clean'', ''missing'']"
  by (simp_all add: missing_pipeline_def example_fields)

lemma colliding_outputs_fields:
  "nodes colliding_outputs_pipeline = [node_n1, node_n2]"
  "node_dependencies colliding_outputs_pipeline node_n1 = Some []"
  "node_dependencies colliding_outputs_pipeline node_n2 = Some []"
  "pipeline_inputs colliding_outputs_pipeline = []"
  "pipeline_outputs colliding_outputs_pipeline = [''A'', ''a'']"
  by (simp_all add: colliding_outputs_pipeline_def node_n1_def node_n2_def)

lemma example_commands:
  "cmds_of example_pipeline ''a'' = Some (cmd_of example_pipeline node_a)"
  "cmds_of example_pipeline ''b'' = Some (cmd_of example_pipeline node_b)"
  "cmds_of missing_pipeline ''a'' = Some (cmd_of missing_pipeline node_a)"
  "cmds_of missing_pipeline ''b'' = Some (cmd_of missing_pipeline node_b)"
  "cmds_of colliding_outputs_pipeline ''n1'' = Some (cmd_of colliding_outputs_pipeline node_n1)"
  "cmds_of colliding_outputs_pipeline ''n2'' = Some (cmd_of colliding_outputs_pipeline node_n2)"
  by (simp_all add: build_commands_def example_fields missing_fields colliding_outputs_fields
      node_fields)

lemma example_declarations:
  "step_outputs (cmd_of p node_a) ''raw'' = Some Output_default"
  "step_outputs (cmd_of p node_b) ''clean'' = Some Output_default"
  "step_outputs (cmd_of p node_n1) ''a'' = Some Output_default"
  "step_outputs (cmd_of p node_n2) ''a'' = Some Output_default"
  by (simp_all add: construct_azure_command_def dict_comp_def node_fields sanitized_names)

lemma example_connect:
  "connect_commands example_pipeline (cmds_of example_pipeline)
     = Inr [''a'' \<mapsto> invoke (cmd_of example_pipeline node_a) 0 Map.empty,
            ''b'' \<mapsto> invoke (cmd_of example_pipeline node_b) 1
                     [''raw'' \<mapsto> Upstream \<lparr>owner = 0, port = ''raw''\<rparr>,
                      ''settings'' \<mapsto> Literal ''settings'']]"
  by (simp add: connect_commands_def example_fields example_commands example_declarations
      node_fields sanitized_names comp_outputs_def invoke_def)

lemma missing_connect:
  "connect_commands missing_pipeline (cmds_of missing_pipeline)
     = Inr [''a'' \<mapsto> invoke (cmd_of missing_pipeline node_a) 0 Map.empty,
            ''b'' \<mapsto> invoke (cmd_of missing_pipeline node_b) 1
                     [''raw'' \<mapsto> Upstream \<lparr>owner = 0, port = ''raw''\<rparr>,
                      ''settings'' \<mapsto> Literal ''settings'']]"
  by (simp add: connect_commands_def missing_fields example_commands example_declarations
      node_fields sanitized_names comp_outputs_def invoke_def)

lemma colliding_outputs_connect:
  "connect_commands colliding_outputs_pipeline (cmds_of colliding_outputs_pipeline)
     = Inr [''n1'' \<mapsto> invoke (cmd_of colliding_outputs_pipeline node_n1) 0 Map.empty,
            ''n2'' \<mapsto> invoke (cmd_of colliding_outputs_pipeline node_n2) 1 Map.empty]"
  by (simp add: connect_commands_def colliding_outputs_fields example_commands
      node_fields invoke_def)

lemma example_lowering:
  "kedro_azure_pipeline_fn example_json example_generator example_pipeline ''run1''
     = Inr [''clean'' \<mapsto> \<lparr>owner = 1, port = ''clean''\<rparr>]"
  by (simp add: kedro_azure_pipeline_fn_def example_connect gather_pipeline_outputs_def
      example_fields example_declarations node_fields sanitized_names comp_outputs_def invoke_def)

lemma missing_lowering:
  "kedro_azure_pipeline_fn example_json example_generator missing_pipeline ''run1''
     = Inl (ValueError (no_producer_message ''missing''))"
  by (simp add: kedro_azure_pipeline_fn_def missing_connect gather_pipeline_outputs_def
      missing_fields example_declarations node_fields sanitized_names comp_outputs_def invoke_def)

lemma colliding_outputs_lowering:
  "kedro_azure_pipeline_fn example_json example_generator colliding_outputs_pipeline ''run1''
     = Inr [''a'' \<mapsto> \<lparr>owner = 1, port = ''a''\<rparr>]"
  by (simp add: kedro_azure_pipeline_fn_def colliding_outputs_connect gather_pipeline_outputs_def
      colliding_outputs_fields example_declarations node_fields sanitized_names comp_outputs_def
      invoke_def)

lemma example_well_formed: "well_formed example_pipeline"
  by (simp add: well_formed_def example_fields node_fields)

lemma example_invariant: "pipeline_invariant example_pipeline"
  by (simp add: pipeline_invariant_def example_fields node_fields)

lemma example_sorted: "topologically_sorted example_pipeline"
  by (simp add: topologically_sorted_def example_fields)

section \<open>Wiring, declarations and output resolution\<close>

text \<open>
  Claim C1, amended. For a node, in a pipeline with unique node names, whose input names
  have pairwise different sanitized names, once the wiring has returned: every input for
  which a dependency of the node lists the dataset among its outputs is bound, under the
  sanitized name, to the handle of the first such dependency's component for that
  sanitized name, and every other input is bound to its raw name. When the dependencies
  are nodes of the pipeline and the pipeline invariant holds, every pipeline input of the
  node is then bound to its raw name, and every other input that a dependency produces is
  bound to the handle of that producer's component.
\<close>

theorem wiring_without_clash:
  assumes "connect_commands p cmds = Inr comps"
    and "distinct (map name (nodes p))"
    and "n \<in> set (nodes p)"
    and "inj_on sanitize_param_name (set (inputs n))"
  shows "wired_as_specified p comps n
         \<and> (well_formed p \<and> pipeline_invariant p \<longrightarrow> complete_bindings p comps n)"
proof -
  from connect_commands_wired [OF assms] have "wired_as_specified p comps n" .
  with wired_complete [OF _ _ _ assms(3)] show ?thesis
    by blast
qed

theorem wiring_without_clash_witness:
  "\<exists>comps. connect_commands example_pipeline
       (build_commands example_json example_generator example_pipeline ''run1'') = Inr comps
     \<and> wired_as_specified example_pipeline comps node_b
     \<and> complete_bindings example_pipeline comps node_b
     \<and> binding_of (Inr comps) ''b'' ''raw'' = Some (Upstream \<lparr>owner = 0, port = ''raw''\<rparr>)
     \<and> binding_of (Inr comps) ''b'' ''settings'' = Some (Literal ''settings'')"
proof -
  have "distinct (map name (nodes example_pipeline))"
    by (simp add: example_fields node_fields)
  moreover have "node_b \<in> set (nodes example_pipeline)"
    by (simp add: example_fields)
  moreover have "inj_on sanitize_param_name (set (inputs node_b))"
    by (simp add: node_fields sanitized_names)
  ultimately show ?thesis
    using wiring_without_clash [OF example_connect] example_well_formed example_invariant
    by (simp add: example_connect binding_of_def invoke_def)
qed

text \<open>
  Claim C1 as stated fails when two inputs of a node have the same sanitized name: node
  \<open>n\<close> reads the pipeline input \<open>A\<close> and then the dataset \<open>a\<close> of node \<open>p\<close>; both are
  stored under the key \<open>a\<close>, the second binding replaces the first, and the pipeline input
  \<open>A\<close> ends up bound to the handle of \<open>p\<close>.
\<close>

theorem wiring_clash_counterexample:
  "well_formed colliding_inputs_pipeline
   \<and> pipeline_invariant colliding_inputs_pipeline
   \<and> \<not> wiring_claim colliding_inputs_pipeline
         (connect_commands colliding_inputs_pipeline
           (build_commands example_json example_generator colliding_inputs_pipeline ''run1''))
   \<and> inputs node_n = [''A'', ''a'']
   \<and> pipeline_inputs colliding_inputs_pipeline = [''A'']
   \<and> sanitize_param_name ''A'' = ''a''
   \<and> binding_of
         (connect_commands colliding_inputs_pipeline
           (build_commands example_json example_generator colliding_inputs_pipeline ''run1''))
         ''n'' ''a'' = Some (Upstream \<lparr>owner = 0, port = ''a''\<rparr>)"
proof -
  have "well_formed colliding_inputs_pipeline"
    by (simp add: well_formed_def colliding_inputs_fields node_fields)
  moreover have "pipeline_invariant colliding_inputs_pipeline"
    by (simp add: pipeline_invariant_def colliding_inputs_fields node_fields)
  moreover have "\<not> wiring_claim colliding_inputs_pipeline
         (connect_commands colliding_inputs_pipeline
           (build_commands example_json example_generator colliding_inputs_pipeline ''run1''))"
    by (simp add: wiring_claim_def colliding_inputs_connect colliding_inputs_fields node_fields
        wired_as_specified_def bound_as_specified_def sanitized_names invoke_def)
  moreover have "binding_of
         (connect_commands colliding_inputs_pipeline
           (build_commands example_json example_generator colliding_inputs_pipeline ''run1''))
         ''n'' ''a'' = Some (Upstream \<lparr>owner = 0, port = ''a''\<rparr>)"
    by (simp add: binding_of_def colliding_inputs_connect invoke_def)
  ultimately show ?thesis
    by (simp add: node_fields colliding_inputs_fields sanitized_names)
qed

text \<open>
  Claim C5. When every dependency of a node stands before it in the node sequence and node
  names are unique, the wiring of the built commands returns. The component of the node at
  position \<open>j\<close> is the \<open>j\<close>-th one built; every handle among its bindings belongs to a
  component built strictly earlier, the one of the node at the owner's position; and the
  mapping that the loop has filled when it reaches position \<open>j\<close>, which is the result of
  the loop over the first \<open>j\<close> nodes, holds a component for every dependency of the node.
\<close>

theorem wiring_topological:
  assumes "topologically_sorted p" and "distinct (map name (nodes p))"
  shows "\<exists>comps. connect_commands p (build_commands json g p rid) = Inr comps
           \<and> (\<forall>j < length (nodes p).
                (\<exists>c. comps (name (nodes p ! j)) = Some c \<and> comp_id c = j
                   \<and> (\<forall>k h. comp_inputs c k = Some (Upstream h) \<longrightarrow>
                         owner h < j
                         \<and> (\<exists>w. comps (name (nodes p ! owner h)) = Some w \<and> comp_id w = owner h)))
                \<and> (\<exists>invoked deps.
                      connect_loop p (build_commands json g p rid) (take j (nodes p)) Map.empty 0
                        = Inr invoked
                      \<and> node_dependencies p (nodes p ! j) = Some deps
                      \<and> (\<forall>d \<in> set deps. invoked (name d) \<noteq> None)))"
proof -
  from connect_commands_succeeds [OF assms] obtain comps
    where comps: "connect_commands p (build_commands json g p rid) = Inr comps"
    by blast
  note order = connect_commands_order [OF comps assms(2)]
  have "(\<exists>c. comps (name (nodes p ! j)) = Some c \<and> comp_id c = j
      \<and> (\<forall>k h. comp_inputs c k = Some (Upstream h) \<longrightarrow>
            owner h < j \<and> (\<exists>w. comps (name (nodes p ! owner h)) = Some w \<and> comp_id w = owner h)))
      \<and> (\<exists>invoked deps.
            connect_loop p (build_commands json g p rid) (take j (nodes p)) Map.empty 0 = Inr invoked
            \<and> node_dependencies p (nodes p ! j) = Some deps
            \<and> (\<forall>d \<in> set deps. invoked (name d) \<noteq> None))"
    if j: "j < length (nodes p)" for j
  proof -
    from order [OF j] obtain c where c: "comps (name (nodes p ! j)) = Some c" "comp_id c = j"
      and up: "\<forall>k h. comp_inputs c k = Some (Upstream h) \<longrightarrow> owner h < j"
      by blast
    have "owner h < j \<and> (\<exists>w. comps (name (nodes p ! owner h)) = Some w \<and> comp_id w = owner h)"
      if "comp_inputs c k = Some (Upstream h)" for k h
    proof -
      from up that have "owner h < j"
        by blast
      moreover from this j order [of "owner h"]
      have "\<exists>w. comps (name (nodes p ! owner h)) = Some w \<and> comp_id w = owner h"
        by auto
      ultimately show ?thesis ..
    qed
    with c connect_commands_prefix [OF comps assms(1) j] show ?thesis
      by blast
  qed
  with comps show ?thesis
    by blast
qed

theorem wiring_topological_witness:
  "\<exists>comps. connect_commands example_pipeline
       (build_commands example_json example_generator example_pipeline ''run1'') = Inr comps
     \<and> (\<exists>c. comps ''b'' = Some c \<and> comp_id c = 1
          \<and> comp_inputs c ''raw'' = Some (Upstream \<lparr>owner = 0, port = ''raw''\<rparr>))"
proof -
  have d: "distinct (map name (nodes example_pipeline))"
    by (simp add: example_fields node_fields)
  from wiring_topological [OF example_sorted d, of example_json example_generator "''run1''"]
  obtain comps where comps: "connect_commands example_pipeline
       (build_commands example_json example_generator example_pipeline ''run1'') = Inr comps"
    and every: "\<forall>j < length (nodes example_pipeline).
        \<exists>c. comps (name (nodes example_pipeline ! j)) = Some c \<and> comp_id c = j"
    by fast
  have "1 < length (nodes example_pipeline)"
    by (simp add: example_fields)
  with every have "\<exists>c. comps (name (nodes example_pipeline ! 1)) = Some c \<and> comp_id c = 1"
    by blast
  then have "\<exists>c. comps ''b'' = Some c \<and> comp_id c = 1"
    by (simp add: example_fields node_fields)
  with comps show ?thesis
    by (auto simp add: example_connect invoke_def)
qed

text \<open>
  Claim C6, amended. When no two inputs of a node with the same sanitized name differ in
  being pipeline inputs, every input of the node is declared under its sanitized name, as
  a string input if and only if it is a pipeline input and as a default input otherwise;
  every output of the node is declared under its sanitized name as a default output.
\<close>

theorem declarations_without_clash:
  assumes "\<forall>i \<in> set (inputs n). \<forall>j \<in> set (inputs n).
      sanitize_param_name i = sanitize_param_name j
        \<longrightarrow> (i \<in> set (pipeline_inputs p) \<longleftrightarrow> j \<in> set (pipeline_inputs p))"
  shows "declarations_as_specified p n (construct_azure_command json g p n rid)"
  unfolding declarations_as_specified_def
proof (intro conjI ballI)
  fix nm assume "nm \<in> set (inputs n)"
  moreover from assms this
  have "\<forall>j \<in> set (inputs n). sanitize_param_name j = sanitize_param_name nm
      \<longrightarrow> (j \<in> set (pipeline_inputs p) \<longleftrightarrow> nm \<in> set (pipeline_inputs p))"
    by blast
  ultimately show "step_inputs (construct_azure_command json g p n rid) (sanitize_param_name nm)
      = Some (if nm \<in> set (pipeline_inputs p) then Input_string else Input_default)"
    by (rule step_inputs_declared)
next
  fix nm assume "nm \<in> set (outputs n)"
  then show "step_outputs (construct_azure_command json g p n rid) (sanitize_param_name nm)
      = Some Output_default"
    by (rule step_outputs_declared)
qed

theorem declarations_without_clash_witness:
  "declarations_as_specified example_pipeline node_b
     (construct_azure_command example_json example_generator example_pipeline node_b ''run1'')
   \<and> step_inputs
       (construct_azure_command example_json example_generator example_pipeline node_b ''run1'')
       ''raw'' = Some Input_default
   \<and> step_inputs
       (construct_azure_command example_json example_generator example_pipeline node_b ''run1'')
       ''settings'' = Some Input_string
   \<and> step_outputs
       (construct_azure_command example_json example_generator example_pipeline node_b ''run1'')
       ''clean'' = Some Output_default"
proof -
  have "\<forall>i \<in> set (inputs node_b). \<forall>j \<in> set (inputs node_b).
      sanitize_param_name i = sanitize_param_name j \<longrightarrow>
        (i \<in> set (pipeline_inputs example_pipeline) \<longleftrightarrow> j \<in> set (pipeline_inputs example_pipeline))"
    by (simp add: node_fields sanitized_names example_fields)
  from declarations_without_clash [OF this, of example_json example_generator "''run1''"]
  have d: "declarations_as_specified example_pipeline node_b
     (construct_azure_command example_json example_generator example_pipeline node_b ''run1'')" .
  then have "step_inputs
       (construct_azure_command example_json example_generator example_pipeline node_b ''run1'')
       ''raw'' = Some Input_default
   \<and> step_inputs
       (construct_azure_command example_json example_generator example_pipeline node_b ''run1'')
       ''settings'' = Some Input_string
   \<and> step_outputs
       (construct_azure_command example_json example_generator example_pipeline node_b ''run1'')
       ''clean'' = Some Output_default"
    by (simp add: declarations_as_specified_def node_fields sanitized_names example_fields)
  with d show ?thesis
    by blast
qed

text \<open>
  Claim C6 as stated fails for node \<open>n\<close>, which reads the pipeline input \<open>A\<close> and the
  dataset \<open>a\<close>: the dict comprehension keeps one entry under the key \<open>a\<close>, the default
  declaration of the later input, so the pipeline input \<open>A\<close> is not declared as a string.
\<close>

theorem declarations_clash_counterexample:
  "\<not> declarations_as_specified colliding_inputs_pipeline node_n
        (construct_azure_command example_json example_generator colliding_inputs_pipeline node_n
          ''run1'')
   \<and> inputs node_n = [''A'', ''a'']
   \<and> pipeline_inputs colliding_inputs_pipeline = [''A'']
   \<and> step_inputs
         (construct_azure_command example_json example_generator colliding_inputs_pipeline node_n
           ''run1'')
         (sanitize_param_name ''A'') = Some Input_default"
  by (simp add: declarations_as_specified_def construct_azure_command_def dict_comp_def
      colliding_inputs_fields node_fields sanitized_names)

text \<open>
  Claim C2, amended. For a pipeline with unique node names whose declared outputs have
  pairwise different sanitized names, once the wiring of the built commands has returned,
  the output resolver either returns a mapping that takes the sanitized name of every
  declared output to the handle, for that name, of the component of the first node listing
  the output, or, when some declared output is listed by no node, raises the error that
  names the first such output in iteration order.
\<close>

theorem outputs_resolved_without_clash:
  assumes "distinct (map name (nodes p))"
    and "inj_on sanitize_param_name (set (pipeline_outputs p))"
  shows "outputs_claim json g p rid"
  using assms
  by (auto simp add: outputs_claim_def gather_pipeline_outputs_claim split: sum.splits)

theorem outputs_resolved_without_clash_witness:
  "outputs_claim example_json example_generator example_pipeline ''run1''
   \<and> kedro_azure_pipeline_fn example_json example_generator example_pipeline ''run1''
     = Inr [''clean'' \<mapsto> \<lparr>owner = 1, port = ''clean''\<rparr>]
   \<and> outputs_claim example_json example_generator missing_pipeline ''run1''
   \<and> kedro_azure_pipeline_fn example_json example_generator missing_pipeline ''run1''
     = Inl (ValueError (no_producer_message ''missing''))"
proof -
  have "distinct (map name (nodes example_pipeline))"
    and "inj_on sanitize_param_name (set (pipeline_outputs example_pipeline))"
    by (simp_all add: example_fields node_fields)
  then have "outputs_claim example_json example_generator example_pipeline ''run1''"
    by (rule outputs_resolved_without_clash)
  moreover have "distinct (map name (nodes missing_pipeline))"
    and "inj_on sanitize_param_name (set (pipeline_outputs missing_pipeline))"
    by (simp_all add: missing_fields node_fields sanitized_names)
  then have "outputs_claim example_json example_generator missing_pipeline ''run1''"
    by (rule outputs_resolved_without_clash)
  ultimately show ?thesis
    using example_lowering missing_lowering by blast
qed

text \<open>
  Claim C2 as stated fails when two declared outputs have the same sanitized name: the
  outputs \<open>A\<close> of node \<open>n1\<close> and \<open>a\<close> of node \<open>n2\<close> are both stored under the key \<open>a\<close>,
  and the result keeps only the handle of \<open>n2\<close>.
\<close>

theorem outputs_clash_counterexample:
  "distinct (map name (nodes colliding_outputs_pipeline))
   \<and> \<not> outputs_claim example_json example_generator colliding_outputs_pipeline ''run1''
   \<and> pipeline_outputs colliding_outputs_pipeline = [''A'', ''a'']
   \<and> kedro_azure_pipeline_fn example_json example_generator colliding_outputs_pipeline ''run1''
     = Inr [''a'' \<mapsto> \<lparr>owner = 1, port = ''a''\<rparr>]"
proof -
  have "gather_pipeline_outputs colliding_outputs_pipeline
      [''n1'' \<mapsto> invoke (cmd_of colliding_outputs_pipeline node_n1) 0 Map.empty,
       ''n2'' \<mapsto> invoke (cmd_of colliding_outputs_pipeline node_n2) 1 Map.empty]
      = Inr [''a'' \<mapsto> \<lparr>owner = 1, port = ''a''\<rparr>]"
    using colliding_outputs_lowering
    by (simp add: kedro_azure_pipeline_fn_def colliding_outputs_connect)
  then have "\<not> outputs_claim example_json example_generator colliding_outputs_pipeline ''run1''"
    by (simp add: outputs_claim_def colliding_outputs_connect resolver_claim_def
        output_resolved_def colliding_outputs_fields node_fields sanitized_names invoke_def)
  with colliding_outputs_lowering show ?thesis
    by (simp add: colliding_outputs_fields node_fields)
qed

end
